theory Spec2Isabelle
  imports Main "HOL-Library.Word"
begin

unbundle bit_operations_syntax

section \<open>Data model\<close>

text \<open>
  Object ids are modelled by their instance number. The default-constructed
  \<^verbatim>\<open>account_id_type()\<close> is instance 0; the bracket code uses it as the marker of a bye.
  \<^verbatim>\<open>share_type\<close> is a checked 64-bit signed integer (\<^verbatim>\<open>fc::safe<int64_t>\<close>): its arithmetic
  throws instead of wrapping, which \<open>safe_add\<close> and \<open>safe_negate\<close> write out.
\<close>

type_synonym account_id_type = nat
type_synonym asset_id_type = nat
type_synonym match_id_type = nat
type_synonym tournament_id_type = nat
type_synonym tournament_details_id_type = nat
type_synonym share_type = int
type_synonym time_point_sec = nat

definition null_account :: account_id_type where
  "null_account = 0"

datatype error =
    Insufficient_balance
  | Share_overflow
  | Object_not_found
  | Index_out_of_range
  | Undefined_shift
  | Undefined_find_msb
  | Empty_optional
  | Assertion_failed

datatype tournament_state =
    accepting_registrations
  | awaiting_start
  | in_progress
  | registration_period_expired
  | concluded

datatype match_state =
    waiting_on_previous_matches
  | match_in_progress
  | match_complete

record asset =
  amount :: share_type
  asset_id :: asset_id_type

record tournament_options =
  number_of_players :: "32 word"
  buy_in :: asset
  whitelist :: "account_id_type list"
  options_start_time :: "time_point_sec option"
  start_delay :: "nat option"

text \<open>
  \<open>state\<close> is the current state of the state machine that the tournament object owns
  (\<^verbatim>\<open>my->state_machine\<close>); \<open>registered_players\<close> is the \<^verbatim>\<open>uint32_t\<close> counter.
\<close>

record tournament_object =
  object_id :: tournament_id_type
  creator :: account_id_type
  options :: tournament_options
  start_time :: "time_point_sec option"
  end_time :: "time_point_sec option"
  prize_pool :: share_type
  registered_players :: "32 word"
  tournament_details_id :: tournament_details_id_type
  state :: tournament_state

text \<open>
  A \<^verbatim>\<open>flat_set\<close> is a sorted vector without duplicates and a \<^verbatim>\<open>flat_map\<close> a vector of pairs
  sorted by key without duplicate keys; both are lists here, in iteration order.
\<close>

record tournament_details_object =
  details_registered_players :: "account_id_type list"
  payers :: "(account_id_type \<times> share_type) list"
  matches :: "match_id_type list"

text \<open>
  Modelled from the spec: the match object, whose class is not among the sources. The
  fields are the ones the tournament code reads and writes (\<^verbatim>\<open>tournament_id\<close>,
  \<^verbatim>\<open>players\<close>, \<^verbatim>\<open>start_time\<close>, \<^verbatim>\<open>end_time\<close>, \<^verbatim>\<open>match_winners\<close>) and the state that
  \<^verbatim>\<open>get_state()\<close> returns.
\<close>

record match_object =
  tournament_id :: tournament_id_type
  players :: "account_id_type list"
  match_start_time :: time_point_sec
  match_end_time :: "time_point_sec option"
  match_winners :: "account_id_type list"
  match_state :: match_state

text \<open>
  The part of the host database that the tournament code touches: the head block time,
  the per-block random seed, the account balances, and the object indexes for
  tournament details and matches with the next free match instance.
\<close>

record database =
  head_block_time :: time_point_sec
  random :: nat
  balances :: "account_id_type \<Rightarrow> asset_id_type \<Rightarrow> share_type"
  tournament_details_index :: "tournament_details_id_type \<rightharpoonup> tournament_details_object"
  match_index :: "match_id_type \<rightharpoonup> match_object"
  next_match_id :: match_id_type

text \<open>
  The deterministic generator \<^verbatim>\<open>fc::hash_ctr_rng\<close> is not among the sources. It is a
  parameter: \<open>rng_init\<close> builds the generator state from the seed and \<open>rng_call s n\<close> is
  one call \<^verbatim>\<open>rng(n)\<close>, giving the drawn number and the next state.
\<close>

record 'r hash_ctr_rng =
  rng_init :: "nat \<Rightarrow> 'r"
  rng_call :: "'r \<Rightarrow> nat \<Rightarrow> nat \<times> 'r"

datatype event =
    player_registered account_id_type account_id_type
  | registration_deadline_passed
  | start_time_arrived
  | final_game_completed

section \<open>Containers and checked arithmetic\<close>

fun flat_set_insert :: "'a::linorder \<Rightarrow> 'a list \<Rightarrow> 'a list" where
  "flat_set_insert x [] = [x]"
| "flat_set_insert x (y # ys) =
     (if x = y then y # ys
      else if x < y then x # y # ys
      else y # flat_set_insert x ys)"

definition flat_set_erase :: "'a \<Rightarrow> 'a list \<Rightarrow> 'a list" where
  "flat_set_erase x xs = removeAll x xs"

fun flat_map_put :: "'k::linorder \<Rightarrow> 'v \<Rightarrow> ('k \<times> 'v) list \<Rightarrow> ('k \<times> 'v) list" where
  "flat_map_put k v [] = [(k, v)]"
| "flat_map_put k v ((k', v') # xs) =
     (if k = k' then (k, v) # xs
      else if k < k' then (k, v) # (k', v') # xs
      else (k', v') # flat_map_put k v xs)"

text \<open>\<^verbatim>\<open>m[k]\<close> on a \<^verbatim>\<open>flat_map\<close> yields a value-initialised entry when the key is absent.\<close>

definition flat_map_at :: "('k \<times> share_type) list \<Rightarrow> 'k \<Rightarrow> share_type" where
  "flat_map_at m k = (case map_of m k of None \<Rightarrow> 0 | Some v \<Rightarrow> v)"

definition safe_add :: "share_type \<Rightarrow> share_type \<Rightarrow> error + share_type" where
  "safe_add a b =
     (if - (2 ^ 63) \<le> a + b \<and> a + b < 2 ^ 63 then Inr (a + b) else Inl Share_overflow)"

definition safe_negate :: "share_type \<Rightarrow> error + share_type" where
  "safe_negate a = (if a = - (2 ^ 63) then Inl Share_overflow else Inr (- a))"

section \<open>Host ledger\<close>

text \<open>
  Modelled from the spec: \<^verbatim>\<open>database::adjust_balance(account, signed_asset)\<close>, which is
  not among the sources. A debit is rejected at the balance layer when the funds are
  insufficient; a credit is unconditional.
\<close>

definition adjust_balance ::
  "database \<Rightarrow> account_id_type \<Rightarrow> asset \<Rightarrow> error + database" where
  "adjust_balance db account delta =
     (let current = balances db account (asset_id delta) in
      if amount delta < 0 \<and> current + amount delta < 0 then Inl Insufficient_balance
      else Inr (db\<lparr>balances :=
                  (balances db)(account :=
                     (balances db account)(asset_id delta := current + amount delta))\<rparr>))"

section \<open>Bracket construction\<close>

definition reverse_bits :: "32 word \<Rightarrow> 32 word" where
  "reverse_bits x0 =
    (let x1 = (drop_bit 1 (x0 AND 0xaaaaaaaa)) OR (push_bit 1 (x0 AND 0x55555555));
         x2 = (drop_bit 2 (x1 AND 0xcccccccc)) OR (push_bit 2 (x1 AND 0x33333333));
         x3 = (drop_bit 4 (x2 AND 0xf0f0f0f0)) OR (push_bit 4 (x2 AND 0x0f0f0f0f));
         x4 = (drop_bit 8 (x3 AND 0xff00ff00)) OR (push_bit 8 (x3 AND 0x00ff00ff))
     in (drop_bit 16 x4) OR (push_bit 16 x4))"

text \<open>
  \<^verbatim>\<open>boost::multiprecision::detail::find_msb\<close>: the index of the most significant set
  bit; it has no defined result for 0.
\<close>

fun msb_index :: "nat \<Rightarrow> nat" where
  "msb_index n = (if n < 2 then 0 else Suc (msb_index (n div 2)))"

declare msb_index.simps [simp del]

definition find_msb :: "32 word \<Rightarrow> error + nat" where
  "find_msb x = (if x = 0 then Inl Undefined_find_msb else Inr (msb_index (unat x)))"

text \<open>
  The three sizes computed at the start of the bracket construction. \<^verbatim>\<open>1 << num_rounds\<close>
  is a shift of a 32-bit \<^verbatim>\<open>int\<close>: a shift by 32 is undefined, smaller shifts are taken in
  two's complement.
\<close>

definition bracket_sizes :: "32 word \<Rightarrow> error + (nat \<times> 32 word \<times> 32 word)" where
  "bracket_sizes num_players =
     (case find_msb (num_players - 1) of
        Inl e \<Rightarrow> Inl e
      | Inr msb \<Rightarrow>
          let num_rounds = msb + 1 in
          if 32 \<le> num_rounds then Inl Undefined_shift
          else Inr (num_rounds,
                    push_bit num_rounds (1 :: 32 word) - 1,
                    push_bit (num_rounds - 1) (1 :: 32 word)))"

definition player_position :: "nat \<Rightarrow> 32 word \<Rightarrow> 32 word" where
  "player_position num_rounds player_num =
     drop_bit (32 - num_rounds) (reverse_bits (player_num XOR drop_bit 1 player_num))"

text \<open>
  The loop \<^verbatim>\<open>for (player_num = 0; player_num < num_players; ++player_num)\<close>, run over the
  list of its counter values. An index outside either vector is an error.
\<close>

fun assign_players ::
  "nat \<Rightarrow> account_id_type list \<Rightarrow> nat list \<Rightarrow> account_id_type list
     \<Rightarrow> error + account_id_type list" where
  "assign_players num_rounds seeded_players [] paired_players = Inr paired_players"
| "assign_players num_rounds seeded_players (player_num # rest) paired_players =
     (let position = unat (player_position num_rounds (word_of_nat player_num)) in
      if position < length paired_players \<and> player_num < length seeded_players
      then assign_players num_rounds seeded_players rest
             (paired_players[position := seeded_players ! player_num])
      else Inl Index_out_of_range)"

definition pair_players ::
  "32 word \<Rightarrow> account_id_type list \<Rightarrow> error + account_id_type list" where
  "pair_players num_players seeded_players =
     (case bracket_sizes num_players of
        Inl e \<Rightarrow> Inl e
      | Inr (num_rounds, num_matches, num_matches_in_first_round) \<Rightarrow>
          assign_players num_rounds seeded_players [0 ..< unat num_players]
            (replicate (unat (num_matches_in_first_round * 2)) null_account))"

text \<open>
  The seeding shuffle \<^verbatim>\<open>for (unsigned i = size - 1; i >= 1; --i)\<close>, with the counter
  running down from its start value; the drawn number is cast to \<^verbatim>\<open>unsigned\<close>.
\<close>

fun shuffle_loop ::
  "('r \<Rightarrow> nat \<Rightarrow> nat \<times> 'r) \<Rightarrow> nat \<Rightarrow> 'r \<Rightarrow> account_id_type list
     \<Rightarrow> error + account_id_type list" where
  "shuffle_loop call 0 s seeded_players = Inr seeded_players"
| "shuffle_loop call (Suc k) s seeded_players =
     (let i = Suc k;
          (drawn, s') = call s (i + 1);
          j = drawn mod 2 ^ 32
      in if i < length seeded_players \<and> j < length seeded_players
         then shuffle_loop call k s'
                (seeded_players[i := seeded_players ! j, j := seeded_players ! i])
         else Inl Index_out_of_range)"

definition shuffle_players ::
  "'r hash_ctr_rng \<Rightarrow> nat \<Rightarrow> account_id_type list \<Rightarrow> error + account_id_type list" where
  "shuffle_players rng seed registered =
     (if registered = [] then Inl Index_out_of_range
      else shuffle_loop (rng_call rng) (length registered - 1) (rng_init rng seed) registered)"

definition create_match ::
  "database \<Rightarrow> tournament_id_type \<Rightarrow> account_id_type list \<Rightarrow> match_id_type \<times> database" where
  "create_match db tid new_players =
     (let new_id = next_match_id db;
          new_match = \<lparr>tournament_id = tid,
                       players = new_players,
                       match_start_time = head_block_time db,
                       match_end_time =
                         (if length new_players = 1 then Some (head_block_time db) else None),
                       match_winners = [],
                       match_state = waiting_on_previous_matches\<rparr>
      in (new_id, db\<lparr>match_index := (match_index db)(new_id \<mapsto> new_match),
                      next_match_id := Suc new_id\<rparr>))"

text \<open>The loop that creates \<open>n\<close> empty matches and collects their ids in creation order.\<close>

fun create_empty_matches ::
  "tournament_id_type \<Rightarrow> nat \<Rightarrow> match_id_type list \<times> database
     \<Rightarrow> match_id_type list \<times> database" where
  "create_empty_matches tid 0 (ids, db) = (ids, db)"
| "create_empty_matches tid (Suc n) (ids, db) =
     (let (new_id, db') = create_match db tid [] in
      create_empty_matches tid n (ids @ [new_id], db'))"

text \<open>
  Modelled from the spec: \<^verbatim>\<open>match_object::on_initiate_match\<close>, which is not among the
  sources. The match receives its players; a single player signals a bye and the match
  completes immediately with that player as winner.
\<close>

definition on_initiate_match ::
  "database \<Rightarrow> account_id_type list \<Rightarrow> match_object \<Rightarrow> match_object" where
  "on_initiate_match db new_players m =
     (if length new_players = 1
      then m\<lparr>players := new_players, match_winners := new_players,
             match_state := match_complete\<rparr>
      else m\<lparr>players := new_players, match_state := match_in_progress\<rparr>)"

text \<open>The players handed to the \<open>i\<close>-th first-round match.\<close>

definition first_round_players :: "account_id_type list \<Rightarrow> nat \<Rightarrow> account_id_type list" where
  "first_round_players paired_players i =
     (paired_players ! (2 * i)) #
       (if paired_players ! (2 * i + 1) \<noteq> null_account
        then [paired_players ! (2 * i + 1)] else [])"

fun initiate_first_round ::
  "match_id_type list \<Rightarrow> account_id_type list \<Rightarrow> nat list \<Rightarrow> database \<Rightarrow> error + database" where
  "initiate_first_round ms paired_players [] db = Inr db"
| "initiate_first_round ms paired_players (i # rest) db =
     (if 2 * i + 1 < length paired_players \<and> i < length ms
      then (case match_index db (ms ! i) of
              None \<Rightarrow> Inl Object_not_found
            | Some m \<Rightarrow>
                initiate_first_round ms paired_players rest
                  (db\<lparr>match_index := (match_index db)(ms ! i \<mapsto>
                        on_initiate_match db (first_round_players paired_players i) m)\<rparr>))
      else Inl Index_out_of_range)"

text \<open>
  The body of \<^verbatim>\<open>in_progress::on_entry\<close> after the shuffle: sizes, pairing array, empty
  matches, first-round initiation, and the store of the match ids in the details object
  (looked up before any match was created).
\<close>

definition start_tournament ::
  "database \<Rightarrow> tournament_object \<Rightarrow> tournament_details_object \<Rightarrow> account_id_type list
     \<Rightarrow> error + database" where
  "start_tournament db t details seeded_players =
     (case bracket_sizes (number_of_players (options t)) of
        Inl e \<Rightarrow> Inl e
      | Inr (num_rounds, num_matches, num_matches_in_first_round) \<Rightarrow>
          (case pair_players (number_of_players (options t)) seeded_players of
             Inl e \<Rightarrow> Inl e
           | Inr paired_players \<Rightarrow>
               let (ms, db1) = create_empty_matches (object_id t) (unat num_matches) ([], db) in
               (case initiate_first_round ms paired_players
                       [0 ..< unat num_matches_in_first_round] db1 of
                  Inl e \<Rightarrow> Inl e
                | Inr db2 \<Rightarrow>
                    Inr (db2\<lparr>tournament_details_index :=
                           (tournament_details_index db2)(tournament_details_id t \<mapsto>
                              details\<lparr>matches := ms\<rparr>)\<rparr>))))"

definition in_progress_on_entry ::
  "'r hash_ctr_rng \<Rightarrow> database \<Rightarrow> tournament_object \<Rightarrow> error + database" where
  "in_progress_on_entry rng db t =
     (case tournament_details_index db (tournament_details_id t) of
        None \<Rightarrow> Inl Object_not_found
      | Some details \<Rightarrow>
          (case shuffle_players rng (random db) (details_registered_players details) of
             Inl e \<Rightarrow> Inl e
           | Inr seeded_players \<Rightarrow> start_tournament db t details seeded_players))"

section \<open>Tournament state machine\<close>

definition awaiting_start_on_entry ::
  "database \<Rightarrow> tournament_object \<Rightarrow> error + tournament_object" where
  "awaiting_start_on_entry db t =
     (case options_start_time (options t) of
        Some st \<Rightarrow> Inr (t\<lparr>start_time := Some st\<rparr>)
      | None \<Rightarrow>
          (case start_delay (options t) of
             None \<Rightarrow> Inl Empty_optional
           | Some d \<Rightarrow> Inr (t\<lparr>start_time := Some (head_block_time db + d)\<rparr>)))"

text \<open>The refund loop over the payers, in the iteration order of the map.\<close>

fun refund_payers ::
  "asset_id_type \<Rightarrow> (account_id_type \<times> share_type) list \<Rightarrow> database \<Rightarrow> error + database" where
  "refund_payers aid [] db = Inr db"
| "refund_payers aid ((payer, paid) # rest) db =
     (case adjust_balance db payer \<lparr>amount = paid, asset_id = aid\<rparr> of
        Inl e \<Rightarrow> Inl e
      | Inr db' \<Rightarrow> refund_payers aid rest db')"

definition registration_period_expired_on_entry ::
  "database \<Rightarrow> tournament_object \<Rightarrow> error + database" where
  "registration_period_expired_on_entry db t =
     (case tournament_details_index db (tournament_details_id t) of
        None \<Rightarrow> Inl Object_not_found
      | Some details \<Rightarrow> refund_payers (asset_id (buy_in (options t))) (payers details) db)"

definition will_be_fully_registered :: "tournament_object \<Rightarrow> bool" where
  "will_be_fully_registered t \<longleftrightarrow>
     registered_players t = number_of_players (options t) - 1"

definition register_player ::
  "account_id_type \<Rightarrow> account_id_type \<Rightarrow> database \<times> tournament_object
     \<Rightarrow> error + database \<times> tournament_object" where
  "register_player payer_id player_id st =
     (let db = fst st; t = snd st; paid = amount (buy_in (options t)) in
      case safe_negate paid of
        Inl e \<Rightarrow> Inl e
      | Inr debit \<Rightarrow>
      (case adjust_balance db payer_id \<lparr>amount = debit, asset_id = asset_id (buy_in (options t))\<rparr> of
        Inl e \<Rightarrow> Inl e
      | Inr db1 \<Rightarrow>
      (case tournament_details_index db1 (tournament_details_id t) of
        None \<Rightarrow> Inl Object_not_found
      | Some details \<Rightarrow>
      (case safe_add (flat_map_at (payers details) payer_id) paid of
        Inl e \<Rightarrow> Inl e
      | Inr contributed \<Rightarrow>
      (case safe_add (prize_pool t) paid of
        Inl e \<Rightarrow> Inl e
      | Inr pool \<Rightarrow>
          Inr (db1\<lparr>tournament_details_index :=
                 (tournament_details_index db1)(tournament_details_id t \<mapsto>
                    details\<lparr>payers := flat_map_put payer_id contributed (payers details),
                            details_registered_players :=
                              flat_set_insert player_id (details_registered_players details)\<rparr>)\<rparr>,
               t\<lparr>registered_players := registered_players t + 1,
                 prize_pool := pool\<rparr>))))))"

text \<open>
  One call of \<^verbatim>\<open>process_event\<close>. The rows of the transition table for one state and
  event are tried from the last to the first, so the guarded row to \<^verbatim>\<open>awaiting_start\<close>
  is tried before the unguarded self-transition; a transition runs its guard, its
  action, the entry action of the target state, and then records the target state. An
  event without a row for the current state changes nothing.
\<close>

fun process_event ::
  "'r hash_ctr_rng \<Rightarrow> event \<Rightarrow> database \<times> tournament_object
     \<Rightarrow> error + database \<times> tournament_object" where
  "process_event rng (player_registered payer_id player_id) (db, t) =
     (if state t = accepting_registrations then
        (if will_be_fully_registered t then
           (case register_player payer_id player_id (db, t) of
              Inl e \<Rightarrow> Inl e
            | Inr (db', t') \<Rightarrow>
                (case awaiting_start_on_entry db' t' of
                   Inl e \<Rightarrow> Inl e
                 | Inr t'' \<Rightarrow> Inr (db', t''\<lparr>state := awaiting_start\<rparr>)))
         else
           (case register_player payer_id player_id (db, t) of
              Inl e \<Rightarrow> Inl e
            | Inr (db', t') \<Rightarrow> Inr (db', t'\<lparr>state := accepting_registrations\<rparr>)))
      else Inr (db, t))"
| "process_event rng registration_deadline_passed (db, t) =
     (if state t = accepting_registrations then
        (case registration_period_expired_on_entry db t of
           Inl e \<Rightarrow> Inl e
         | Inr db' \<Rightarrow> Inr (db', t\<lparr>state := registration_period_expired\<rparr>))
      else Inr (db, t))"
| "process_event rng start_time_arrived (db, t) =
     (if state t = awaiting_start then
        (case in_progress_on_entry rng db t of
           Inl e \<Rightarrow> Inl e
         | Inr db' \<Rightarrow> Inr (db', t\<lparr>state := in_progress\<rparr>))
      else Inr (db, t))"
| "process_event rng final_game_completed (db, t) =
     (if state t = in_progress then Inr (db, t\<lparr>state := concluded\<rparr>) else Inr (db, t))"

section \<open>Match-advancement scheduler\<close>

definition num_matches_in_round :: "nat \<Rightarrow> nat \<Rightarrow> 32 word" where
  "num_matches_in_round num_rounds round_num = push_bit (num_rounds - round_num - 1) 1"

definition first_match_in_round :: "32 word \<Rightarrow> nat \<Rightarrow> 32 word" where
  "first_match_in_round num_matches round_num =
     num_matches - drop_bit round_num num_matches"

text \<open>
  The inner scan loop over the match numbers of one round. It yields whether all matches
  of the round are complete, and the flag \<^verbatim>\<open>first_incomplete_match_was_waiting\<close>, which
  is only assigned at the first match that is not complete.
\<close>

fun scan_round ::
  "database \<Rightarrow> match_id_type list \<Rightarrow> nat list \<Rightarrow> bool \<Rightarrow> error + bool \<times> bool" where
  "scan_round db ms [] was_waiting = Inr (True, was_waiting)"
| "scan_round db ms (match_num # rest) was_waiting =
     (if match_num < length ms then
        (case match_index db (ms ! match_num) of
           None \<Rightarrow> Inl Object_not_found
         | Some m \<Rightarrow>
             if match_state m \<noteq> match_complete
             then Inr (False, match_state m = waiting_on_previous_matches)
             else scan_round db ms rest was_waiting)
      else Inl Index_out_of_range)"

text \<open>
  The outer scan loop over the rounds; it stops at the first round that is not complete
  and yields \<^verbatim>\<open>last_complete_round\<close> with the flag.
\<close>

fun scan_rounds ::
  "database \<Rightarrow> match_id_type list \<Rightarrow> 32 word \<Rightarrow> nat \<Rightarrow> nat list \<Rightarrow> int \<Rightarrow> bool
     \<Rightarrow> error + int \<times> bool" where
  "scan_rounds db ms num_matches num_rounds [] last_complete_round was_waiting =
     Inr (last_complete_round, was_waiting)"
| "scan_rounds db ms num_matches num_rounds (round_num # rest) last_complete_round was_waiting =
     (let num_matches_in_this_round = num_matches_in_round num_rounds round_num;
          first = first_match_in_round num_matches round_num
      in case scan_round db ms [unat first ..< unat (first + num_matches_in_this_round)]
                was_waiting of
           Inl e \<Rightarrow> Inl e
         | Inr (all_matches_in_round_complete, was_waiting') \<Rightarrow>
             if all_matches_in_round_complete
             then scan_rounds db ms num_matches num_rounds rest (int round_num) was_waiting'
             else Inr (last_complete_round, was_waiting'))"

text \<open>
  The winners collected from the two child matches. With assertions compiled in
  (\<open>ndebug\<close> false) a non-empty winner set of a size other than one aborts.
\<close>

definition collect_winners ::
  "bool \<Rightarrow> match_object \<Rightarrow> match_object \<Rightarrow> error + account_id_type list" where
  "collect_winners ndebug left_match right_match =
     (if \<not> ndebug \<and> match_winners left_match \<noteq> [] \<and> length (match_winners left_match) \<noteq> 1
      then Inl Assertion_failed
      else if \<not> ndebug \<and> match_winners right_match \<noteq> []
                \<and> length (match_winners right_match) \<noteq> 1
      then Inl Assertion_failed
      else Inr ((if match_winners left_match \<noteq> [] then [hd (match_winners left_match)] else [])
                @ (if match_winners right_match \<noteq> [] then [hd (match_winners right_match)]
                   else [])))"

text \<open>
  The loop over the matches of the first incomplete round. The child index is computed
  in \<^verbatim>\<open>unsigned\<close> arithmetic and stored in an \<^verbatim>\<open>int\<close>; \<^verbatim>\<open>match_to_start\<close> is the object
  at \<^verbatim>\<open>matches[left_child_index]\<close>, as in the source.
\<close>

fun start_matches_in_round ::
  "bool \<Rightarrow> match_id_type list \<Rightarrow> 32 word \<Rightarrow> nat list \<Rightarrow> database \<Rightarrow> error + database" where
  "start_matches_in_round ndebug ms num_matches [] db = Inr db"
| "start_matches_in_round ndebug ms num_matches (match_num # rest) db =
     (let left_child_index =
            sint ((num_matches - 1) - ((num_matches - 1 - word_of_nat match_num) * 2 + 2));
          right_child_index = left_child_index + 1
      in if 0 \<le> left_child_index \<and> nat left_child_index < length ms
            \<and> nat right_child_index < length ms
         then (case match_index db (ms ! nat left_child_index) of
                 None \<Rightarrow> Inl Object_not_found
               | Some match_to_start \<Rightarrow>
           (case match_index db (ms ! nat left_child_index) of
                 None \<Rightarrow> Inl Object_not_found
               | Some left_match \<Rightarrow>
           (case match_index db (ms ! nat right_child_index) of
                 None \<Rightarrow> Inl Object_not_found
               | Some right_match \<Rightarrow>
           (case collect_winners ndebug left_match right_match of
                 Inl e \<Rightarrow> Inl e
               | Inr winners \<Rightarrow>
                   start_matches_in_round ndebug ms num_matches rest
                     (db\<lparr>match_index := (match_index db)(ms ! nat left_child_index \<mapsto>
                           match_to_start\<lparr>players := winners\<rparr>)\<rparr>)))))
         else Inl Index_out_of_range)"

text \<open>
  \<open>ndebug\<close> says whether \<^verbatim>\<open>assert\<close> is compiled out. The comparison of the \<^verbatim>\<open>int\<close>
  \<^verbatim>\<open>last_complete_round\<close> with \<^verbatim>\<open>num_rounds - 1\<close> is an unsigned one.
\<close>

definition check_for_new_matches_to_start ::
  "bool \<Rightarrow> database \<Rightarrow> tournament_object \<Rightarrow> error + database" where
  "check_for_new_matches_to_start ndebug db t =
     (case tournament_details_index db (tournament_details_id t) of
        None \<Rightarrow> Inl Object_not_found
      | Some details \<Rightarrow>
          let ms = matches details;
              num_matches = (word_of_nat (length ms) :: 32 word)
          in (case find_msb (num_matches + 1) of
                Inl e \<Rightarrow> Inl e
              | Inr num_rounds \<Rightarrow>
          (case scan_rounds db ms num_matches num_rounds [0 ..< num_rounds] (- 1) False of
                Inl e \<Rightarrow> Inl e
              | Inr (last_complete_round, first_incomplete_match_was_waiting) \<Rightarrow>
                  if last_complete_round = - 1 then Inr db
                  else if (word_of_int last_complete_round :: 32 word)
                            = word_of_nat num_rounds - 1
                  then (if ndebug then Inr db else Inl Assertion_failed)
                  else if first_incomplete_match_was_waiting
                  then
                    let first_incomplete_round = nat (last_complete_round + 1);
                        num_matches_in_incomplete_round =
                          num_matches_in_round num_rounds first_incomplete_round;
                        first_match_in_incomplete_round =
                          first_match_in_round num_matches first_incomplete_round
                    in start_matches_in_round ndebug ms num_matches
                         [unat first_match_in_incomplete_round ..<
                            unat (first_match_in_incomplete_round
                                    + num_matches_in_incomplete_round)] db
                  else Inr db)))"

section \<open>Account-impact resolver\<close>

text \<open>
  The operation variants of the visitor that concern tournaments, with the account
  fields the visitor reads, and three of the remaining variants (one that inserts, one
  that inserts the fee payer, one that does nothing).
\<close>

datatype operation =
    transfer_operation account_id_type account_id_type
  | limit_order_cancel_operation account_id_type
  | tournament_create_operation account_id_type "account_id_type list"
  | tournament_join_operation account_id_type account_id_type
  | tournament_leave_operation account_id_type account_id_type
  | game_move_operation account_id_type
  | tournament_payout_operation account_id_type
  | affiliate_payout_operation account_id_type
  | affiliate_referral_payout_operation

fun get_impacted_account_visitor ::
  "operation \<Rightarrow> account_id_type list \<Rightarrow> account_id_type list" where
  "get_impacted_account_visitor (transfer_operation from to) impacted =
     flat_set_insert to impacted"
| "get_impacted_account_visitor (limit_order_cancel_operation fee_paying_account) impacted =
     flat_set_insert fee_paying_account impacted"
| "get_impacted_account_visitor (tournament_create_operation creator_id wl) impacted =
     fold flat_set_insert wl (flat_set_insert creator_id impacted)"
| "get_impacted_account_visitor (tournament_join_operation payer_account_id player_account_id)
       impacted =
     flat_set_insert player_account_id (flat_set_insert payer_account_id impacted)"
| "get_impacted_account_visitor (tournament_leave_operation canceling_account_id player_account_id)
       impacted =
     flat_set_erase player_account_id
       (if canceling_account_id \<noteq> player_account_id
        then flat_set_erase canceling_account_id impacted else impacted)"
| "get_impacted_account_visitor (game_move_operation player_account_id) impacted =
     flat_set_insert player_account_id impacted"
| "get_impacted_account_visitor (tournament_payout_operation payout_account_id) impacted =
     flat_set_insert payout_account_id impacted"
| "get_impacted_account_visitor (affiliate_payout_operation affiliate) impacted =
     flat_set_insert affiliate impacted"
| "get_impacted_account_visitor affiliate_referral_payout_operation impacted = impacted"

definition operation_get_impacted_accounts ::
  "operation \<Rightarrow> account_id_type list \<Rightarrow> account_id_type list" where
  "operation_get_impacted_accounts op result = get_impacted_account_visitor op result"

section \<open>Example states\<close>

definition example_match ::
  "account_id_type list \<Rightarrow> account_id_type list \<Rightarrow> match_state \<Rightarrow> match_object" where
  "example_match ps ws st =
     \<lparr>tournament_id = 0, players = ps, match_start_time = 0, match_end_time = None,
      match_winners = ws, match_state = st\<rparr>"

definition example_options :: "32 word \<Rightarrow> tournament_options" where
  "example_options n =
     \<lparr>number_of_players = n, buy_in = \<lparr>amount = 10, asset_id = 0\<rparr>, whitelist = [],
      options_start_time = None, start_delay = Some 60\<rparr>"

definition example_tournament :: "32 word \<Rightarrow> 32 word \<Rightarrow> share_type \<Rightarrow> tournament_state
    \<Rightarrow> tournament_object" where
  "example_tournament n registered pool st =
     \<lparr>object_id = 0, creator = 9, options = example_options n, start_time = None,
      end_time = None, prize_pool = pool, registered_players = registered,
      tournament_details_id = 0, state = st\<rparr>"

text \<open>
  An 8-player bracket of seven matches with ids 10 to 16. The four matches at indices 0
  to 3 (the round that the scheduler numbers 0) are complete with winners 1, 3, 5 and 7;
  the matches at indices 4 to 6 are still waiting.
\<close>

definition bracket8_db :: database where
  "bracket8_db =
     \<lparr>head_block_time = 100, random = 0, balances = (\<lambda>_ _. 0),
      tournament_details_index =
        [0 \<mapsto> \<lparr>details_registered_players = [1, 2, 3, 4, 5, 6, 7, 8], payers = [],
                matches = [10, 11, 12, 13, 14, 15, 16]\<rparr>],
      match_index =
        [10 \<mapsto> example_match [1, 2] [1] match_complete,
         11 \<mapsto> example_match [3, 4] [3] match_complete,
         12 \<mapsto> example_match [5, 6] [5] match_complete,
         13 \<mapsto> example_match [7, 8] [7] match_complete,
         14 \<mapsto> example_match [] [] waiting_on_previous_matches,
         15 \<mapsto> example_match [] [] waiting_on_previous_matches,
         16 \<mapsto> example_match [] [] waiting_on_previous_matches],
      next_match_id = 17\<rparr>"

definition players_of_matches :: "error + database \<Rightarrow> match_id_type list
    \<Rightarrow> account_id_type list option list" where
  "players_of_matches r ids =
     (case r of Inl e \<Rightarrow> [] | Inr db \<Rightarrow> map (\<lambda>i. map_option players (match_index db i)) ids)"

section \<open>Properties of the ledger\<close>

text \<open>
  The keys of a \<^verbatim>\<open>flat_map\<close> are strictly increasing. The ledger invariant of a
  tournament: its details object exists, the payers map is well formed, and the prize
  pool is the sum of the payers' contributions.
\<close>

definition flat_map_sorted :: "(account_id_type \<times> share_type) list \<Rightarrow> bool" where
  "flat_map_sorted m \<longleftrightarrow> sorted_wrt (<) (map fst m)"

definition ledger_invariant :: "database \<Rightarrow> tournament_object \<Rightarrow> bool" where
  "ledger_invariant db t \<longleftrightarrow>
     (case tournament_details_index db (tournament_details_id t) of
        None \<Rightarrow> False
      | Some details \<Rightarrow>
          flat_map_sorted (payers details)
          \<and> prize_pool t = sum_list (map snd (payers details)))"

text \<open>The total that the payers map holds for one account.\<close>

definition refunded :: "(account_id_type \<times> share_type) list \<Rightarrow> account_id_type \<Rightarrow> share_type" where
  "refunded ps a = sum_list (map snd (filter (\<lambda>x. fst x = a) ps))"

text \<open>
  A generator that always draws 0, and a database in which every account holds 25 units
  of asset 0 and the details object 0 has the given payers, each having registered
  themselves.
\<close>

definition example_rng :: "unit hash_ctr_rng" where
  "example_rng = \<lparr>rng_init = (\<lambda>seed. ()), rng_call = (\<lambda>s n. (0, s))\<rparr>"

definition registration_db :: "(account_id_type \<times> share_type) list \<Rightarrow> database" where
  "registration_db ps =
     \<lparr>head_block_time = 100, random = 0, balances = (\<lambda>a aid. if aid = 0 then 25 else 0),
      tournament_details_index =
        [0 \<mapsto> \<lparr>details_registered_players = map fst ps, payers = ps, matches = []\<rparr>],
      match_index = Map.empty, next_match_id = 0\<rparr>"

section \<open>Properties of the bracket\<close>

text \<open>
  The index into the pairing array that the assignment loop computes for a player
  number, the number of rounds that \<open>bracket_sizes\<close> computes for a number of players,
  and the match object that the creation loop stores for an empty player list.
\<close>

definition paired_index :: "nat \<Rightarrow> nat \<Rightarrow> nat" where
  "paired_index num_rounds player_num =
     unat (player_position num_rounds (word_of_nat player_num))"

definition rounds_for :: "32 word \<Rightarrow> nat" where
  "rounds_for num_players = Suc (msb_index (unat (num_players - 1)))"

definition empty_match :: "database \<Rightarrow> tournament_id_type \<Rightarrow> match_object" where
  "empty_match db tid =
     \<lparr>tournament_id = tid, players = [], match_start_time = head_block_time db,
      match_end_time = None, match_winners = [], match_state = waiting_on_previous_matches\<rparr>"

text \<open>The details object of a tournament of three registered players.\<close>

definition three_players_details :: tournament_details_object where
  "three_players_details =
     \<lparr>details_registered_players = [1, 2, 3], payers = [(1, 10), (2, 10), (3, 10)],
      matches = []\<rparr>"

section \<open>Properties of the scheduler\<close>

text \<open>
  A match of the array is complete when its object exists and is in state
  \<^verbatim>\<open>match_complete\<close>; a round is complete when all matches in the index range that the
  scan visits for it are.
\<close>

definition match_is_complete :: "database \<Rightarrow> match_id_type list \<Rightarrow> nat \<Rightarrow> bool" where
  "match_is_complete db ms i \<longleftrightarrow>
     i < length ms
     \<and> (case match_index db (ms ! i) of
          None \<Rightarrow> False
        | Some m \<Rightarrow> match_state m = match_complete)"

definition round_complete ::
  "database \<Rightarrow> match_id_type list \<Rightarrow> 32 word \<Rightarrow> nat \<Rightarrow> nat \<Rightarrow> bool" where
  "round_complete db ms num_matches num_rounds round_num \<longleftrightarrow>
     list_all (match_is_complete db ms)
       [unat (first_match_in_round num_matches round_num) ..<
          unat (first_match_in_round num_matches round_num
                  + num_matches_in_round num_rounds round_num)]"

text \<open>
  A four-player bracket of three matches with ids 20 to 22 in given states; the first
  round is played by 12 against 11 and by 13 against 14.
\<close>

definition bracket4_details :: tournament_details_object where
  "bracket4_details =
     \<lparr>details_registered_players = [11, 12, 13, 14], payers = [], matches = [20, 21, 22]\<rparr>"

definition bracket4_db :: "match_state \<Rightarrow> match_state \<Rightarrow> match_state \<Rightarrow> database" where
  "bracket4_db s0 s1 s2 =
     \<lparr>head_block_time = 100, random = 0, balances = (\<lambda>_ _. 0),
      tournament_details_index = [0 \<mapsto> bracket4_details],
      match_index =
        [20 \<mapsto> example_match [12, 11] [] s0,
         21 \<mapsto> example_match [13, 14] [13] s1,
         22 \<mapsto> example_match [] [] s2],
      next_match_id = 23\<rparr>"

section \<open>Account impact of leaving a tournament\<close>

lemma flat_set_erase_filter: "flat_set_erase x xs = filter (\<lambda>a. a \<noteq> x) xs"
  by (induction xs) (auto simp: flat_set_erase_def)

lemma set_flat_set_insert: "set (flat_set_insert x xs) = insert x (set xs)"
  by (induction xs) auto

text \<open>
  Claim C9. The visitor for \<^verbatim>\<open>tournament_leave_operation\<close> only erases: the result is
  the running set without the player and without the canceling account (for equal
  accounts that is one erasure), in the same order. Starting from the set that a join
  with payer \<open>P\<close> and player \<open>Q\<close> produced, which is \<open>{P, Q}\<close>, a leave with canceling
  account \<open>P\<close> and player \<open>Q\<close> leaves the empty set.
\<close>

theorem tournament_leave_erases_both_accounts:
  "get_impacted_account_visitor (tournament_leave_operation c p) impacted
     = filter (\<lambda>a. a \<noteq> c \<and> a \<noteq> p) impacted
   \<and> set (get_impacted_account_visitor (tournament_leave_operation c p) impacted)
       = set impacted - {p, c}
   \<and> set (get_impacted_account_visitor (tournament_join_operation P Q) []) = {P, Q}
   \<and> get_impacted_account_visitor (tournament_leave_operation P Q)
       (get_impacted_account_visitor (tournament_join_operation P Q) []) = []"
proof (intro conjI)
  show erased: "get_impacted_account_visitor (tournament_leave_operation c p) impacted
     = filter (\<lambda>a. a \<noteq> c \<and> a \<noteq> p) impacted"
    by (auto simp: flat_set_erase_filter intro: filter_cong)
  show "set (get_impacted_account_visitor (tournament_leave_operation c p) impacted)
       = set impacted - {p, c}"
    unfolding erased by auto
  show "set (get_impacted_account_visitor (tournament_join_operation P Q) []) = {P, Q}"
    by (auto simp: set_flat_set_insert)
  show "get_impacted_account_visitor (tournament_leave_operation P Q)
       (get_impacted_account_visitor (tournament_join_operation P Q) []) = []"
    by (auto simp: flat_set_erase_filter)
qed

section \<open>The scheduler on a bracket with a complete first round\<close>

text \<open>
  Claim C1, evaluated on the 8-player bracket above. One call of the scheduler, with
  assertions compiled in or out, leaves the two second-round matches (ids 14 and 15) and
  the final (id 16) without players, and instead overwrites the players of the complete
  first-round matches 10 and 12, the left children, with the collected winners.
\<close>

theorem check_for_new_matches_writes_left_child:
  "players_of_matches
     (check_for_new_matches_to_start True bracket8_db
        (example_tournament 8 8 80 in_progress)) [10, 11, 12, 13, 14, 15, 16]
     = [Some [1, 3], Some [3, 4], Some [5, 7], Some [7, 8], Some [], Some [], Some []]
   \<and> players_of_matches
     (check_for_new_matches_to_start False bracket8_db
        (example_tournament 8 8 80 in_progress)) [10, 11, 12, 13, 14, 15, 16]
     = [Some [1, 3], Some [3, 4], Some [5, 7], Some [7, 8], Some [], Some [], Some []]"
  by code_simp

section \<open>Registration, prize pool and refunds\<close>

lemma map_of_flat_map_put: "map_of (flat_map_put k v m) = (map_of m)(k \<mapsto> v)"
  by (induction m) (auto simp: fun_eq_iff)

lemma flat_map_at_absent:
  "\<forall>x\<in>set m. (k :: 'k :: linorder) < fst x \<Longrightarrow> flat_map_at m k = 0"
proof -
  assume "\<forall>x\<in>set m. k < fst x"
  then have "k \<notin> fst ` set m" by fastforce
  then have "map_of m k = None" by (simp add: map_of_eq_None_iff)
  then show ?thesis by (simp add: flat_map_at_def)
qed

lemma sum_flat_map_put:
  "sorted_wrt (<) (map fst m) \<Longrightarrow>
     sum_list (map snd (flat_map_put k (flat_map_at m k + a) m)) = sum_list (map snd m) + a"
proof (induction m)
  case Nil
  then show ?case by (simp add: flat_map_at_def)
next
  case (Cons x m)
  obtain k' v' where x: "x = (k', v')" by (cases x)
  show ?case
  proof (cases "k = k'")
    case True
    then show ?thesis using x by (simp add: flat_map_at_def)
  next
    case ne: False
    show ?thesis
    proof (cases "k < k'")
      case True
      with Cons.prems x have "\<forall>y\<in>set (x # m). k < fst y" by auto
      then have "flat_map_at (x # m) k = 0" by (rule flat_map_at_absent)
      with True ne x show ?thesis by simp
    next
      case False
      have "flat_map_at (x # m) k = flat_map_at m k" using ne x by (simp add: flat_map_at_def)
      with False ne x Cons show ?thesis by simp
    qed
  qed
qed

lemma set_fst_flat_map_put: "fst ` set (flat_map_put k v m) = insert k (fst ` set m)"
proof -
  have "dom (map_of (flat_map_put k v m)) = insert k (dom (map_of m))"
    by (simp add: map_of_flat_map_put)
  then show ?thesis by (simp add: dom_map_of_conv_image_fst)
qed

lemma sorted_flat_map_put:
  "sorted_wrt (<) (map fst m) \<Longrightarrow> sorted_wrt (<) (map fst (flat_map_put k v m))"
proof (induction m)
  case Nil
  then show ?case by simp
next
  case (Cons x m)
  obtain k' v' where x: "x = (k', v')" by (cases x)
  have "\<forall>y\<in>fst ` set (flat_map_put k v m). k' < y" if "k' < k"
    using Cons.prems x that by (auto simp: set_fst_flat_map_put)
  with Cons x show ?case by (auto simp: not_less)
qed

lemma adjust_balance_indexes:
  "adjust_balance db a d = Inr db' \<Longrightarrow>
     tournament_details_index db' = tournament_details_index db
     \<and> match_index db' = match_index db"
  by (auto simp: adjust_balance_def Let_def split: if_splits)

lemma refund_payers_indexes:
  "refund_payers aid ps db = Inr db' \<Longrightarrow>
     tournament_details_index db' = tournament_details_index db
     \<and> match_index db' = match_index db"
proof (induction ps arbitrary: db)
  case Nil
  then show ?case by simp
next
  case (Cons p ps)
  obtain a v where p: "p = (a, v)" by (cases p)
  from Cons.prems p obtain db1 where
    a: "adjust_balance db a \<lparr>amount = v, asset_id = aid\<rparr> = Inr db1" and r: "refund_payers aid ps db1 = Inr db'"
    by (auto split: sum.splits)
  from Cons.IH[OF r] adjust_balance_indexes[OF a] show ?case by simp
qed

lemma register_player_effect:
  assumes "register_player payer_id player_id (db, t) = Inr (db1, t1)"
  shows "\<exists>details.
     tournament_details_index db (tournament_details_id t) = Some details
     \<and> tournament_details_index db1 =
         (tournament_details_index db)(tournament_details_id t \<mapsto>
            details\<lparr>payers := flat_map_put payer_id
                        (flat_map_at (payers details) payer_id + amount (buy_in (options t)))
                        (payers details),
                    details_registered_players :=
                       flat_set_insert player_id (details_registered_players details)\<rparr>)
     \<and> t1 = t\<lparr>registered_players := registered_players t + 1,
              prize_pool := prize_pool t + amount (buy_in (options t))\<rparr>"
  using assms
  by (auto simp: register_player_def Let_def safe_add_def safe_negate_def
      split: sum.splits option.splits if_splits dest!: adjust_balance_indexes)


lemma start_tournament_details:
  "start_tournament db t details seeded = Inr db' \<Longrightarrow>
     \<exists>ms. tournament_details_index db' (tournament_details_id t) = Some (details\<lparr>matches := ms\<rparr>)"
  by (auto simp: start_tournament_def Let_def split: sum.splits prod.splits)

lemma in_progress_on_entry_payers:
  assumes "in_progress_on_entry rng db t = Inr db'"
  shows "\<exists>details ms. tournament_details_index db (tournament_details_id t) = Some details
      \<and> tournament_details_index db' (tournament_details_id t) = Some (details\<lparr>matches := ms\<rparr>)"
  using assms
  by (auto simp: in_progress_on_entry_def split: option.splits sum.splits
      dest: start_tournament_details)

lemma awaiting_start_on_entry_fields:
  "awaiting_start_on_entry db t = Inr t' \<Longrightarrow>
     prize_pool t' = prize_pool t \<and> tournament_details_id t' = tournament_details_id t
     \<and> registered_players t' = registered_players t \<and> options t' = options t
     \<and> state t' = state t"
  by (auto simp: awaiting_start_on_entry_def split: option.splits)

lemma register_player_invariant:
  assumes inv: "ledger_invariant db t"
    and reg: "register_player payer_id player_id (db, t) = Inr (db1, t1)"
  shows "ledger_invariant db1 t1"
proof -
  from register_player_effect[OF reg] obtain details where
    d: "tournament_details_index db (tournament_details_id t) = Some details"
    and db1: "tournament_details_index db1 =
         (tournament_details_index db)(tournament_details_id t \<mapsto>
            details\<lparr>payers := flat_map_put payer_id
                        (flat_map_at (payers details) payer_id + amount (buy_in (options t)))
                        (payers details),
                    details_registered_players :=
                       flat_set_insert player_id (details_registered_players details)\<rparr>)"
    and t1: "t1 = t\<lparr>registered_players := registered_players t + 1,
              prize_pool := prize_pool t + amount (buy_in (options t))\<rparr>"
    by blast
  from inv d have s: "sorted_wrt (<) (map fst (payers details))"
    and p: "prize_pool t = sum_list (map snd (payers details))"
    by (simp_all add: ledger_invariant_def flat_map_sorted_def)
  show ?thesis
    using s p by (simp add: ledger_invariant_def flat_map_sorted_def db1 t1
        sum_flat_map_put sorted_flat_map_put)
qed

text \<open>
  Claim C6. Every event that the state machine processes preserves the ledger
  invariant, in which the prize pool equals the sum of the values of the payers map. In
  particular \<^verbatim>\<open>register_player\<close> adds exactly the buy-in amount to the payer's entry
  (which exists afterwards, whether or not it did before) and to the prize pool, leaves
  the other entries alone, inserts the player into the registered players and increments
  the counter by one.
\<close>

theorem prize_pool_is_sum_of_payers:
  "(ledger_invariant db t \<and> process_event rng ev (db, t) = Inr (db', t')
      \<longrightarrow> ledger_invariant db' t')
   \<and> (register_player payer_id player_id (db, t) = Inr (db1, t1) \<longrightarrow>
        (\<exists>details details1.
            tournament_details_index db (tournament_details_id t) = Some details
          \<and> tournament_details_index db1 (tournament_details_id t) = Some details1
          \<and> tournament_details_id t1 = tournament_details_id t
          \<and> flat_map_at (payers details1) payer_id
              = flat_map_at (payers details) payer_id + amount (buy_in (options t))
          \<and> payer_id \<in> fst ` set (payers details1)
          \<and> (\<forall>k. k \<noteq> payer_id \<longrightarrow> map_of (payers details1) k = map_of (payers details) k)
          \<and> prize_pool t1 = prize_pool t + amount (buy_in (options t))
          \<and> set (details_registered_players details1)
              = insert player_id (set (details_registered_players details))
          \<and> registered_players t1 = registered_players t + 1))"
proof (intro conjI impI)
  assume a: "ledger_invariant db t \<and> process_event rng ev (db, t) = Inr (db', t')"
  then have inv: "ledger_invariant db t" and step: "process_event rng ev (db, t) = Inr (db', t')"
    by simp_all
  show "ledger_invariant db' t'"
  proof (cases ev)
    case (player_registered payer player)
    show ?thesis
    proof (cases "state t = accepting_registrations")
      case False
      with step player_registered inv show ?thesis by simp
    next
      case True
      from step player_registered True obtain db1 t1 where
        reg: "register_player payer player (db, t) = Inr (db1, t1)"
        by (auto split: if_splits sum.splits)
      have inv1: "ledger_invariant db1 t1" by (rule register_player_invariant[OF inv reg])
      from step player_registered True reg have "db' = db1"
        by (auto split: if_splits sum.splits)
      moreover from step player_registered True reg
      have "prize_pool t' = prize_pool t1 \<and> tournament_details_id t' = tournament_details_id t1"
        by (auto split: if_splits sum.splits dest!: awaiting_start_on_entry_fields)
      ultimately show ?thesis using inv1
        by (auto simp: ledger_invariant_def split: option.splits)
    qed
  next
    case registration_deadline_passed
    with step inv show ?thesis
      by (auto simp: ledger_invariant_def registration_period_expired_on_entry_def
          split: if_splits sum.splits option.splits dest!: refund_payers_indexes)
  next
    case start_time_arrived
    with step inv show ?thesis
      by (auto simp: ledger_invariant_def split: if_splits sum.splits option.splits
          dest!: in_progress_on_entry_payers)
  next
    case final_game_completed
    with step inv show ?thesis
      by (auto simp: ledger_invariant_def split: if_splits option.splits)
  qed
next
  assume reg: "register_player payer_id player_id (db, t) = Inr (db1, t1)"
  from register_player_effect[OF reg] obtain details where
    d: "tournament_details_index db (tournament_details_id t) = Some details"
    and db1: "tournament_details_index db1 =
         (tournament_details_index db)(tournament_details_id t \<mapsto>
            details\<lparr>payers := flat_map_put payer_id
                        (flat_map_at (payers details) payer_id + amount (buy_in (options t)))
                        (payers details),
                    details_registered_players :=
                       flat_set_insert player_id (details_registered_players details)\<rparr>)"
    and t1: "t1 = t\<lparr>registered_players := registered_players t + 1,
              prize_pool := prize_pool t + amount (buy_in (options t))\<rparr>"
    by blast
  show "\<exists>details details1.
            tournament_details_index db (tournament_details_id t) = Some details
          \<and> tournament_details_index db1 (tournament_details_id t) = Some details1
          \<and> tournament_details_id t1 = tournament_details_id t
          \<and> flat_map_at (payers details1) payer_id
              = flat_map_at (payers details) payer_id + amount (buy_in (options t))
          \<and> payer_id \<in> fst ` set (payers details1)
          \<and> (\<forall>k. k \<noteq> payer_id \<longrightarrow> map_of (payers details1) k = map_of (payers details) k)
          \<and> prize_pool t1 = prize_pool t + amount (buy_in (options t))
          \<and> set (details_registered_players details1)
              = insert player_id (set (details_registered_players details))
          \<and> registered_players t1 = registered_players t + 1"
    using d by (simp add: db1 t1 flat_map_at_def map_of_flat_map_put set_fst_flat_map_put
        set_flat_set_insert)
qed


lemma word_succ_eq_iff: "(x :: 32 word) = n - 1 \<longleftrightarrow> x + 1 = n"
  by auto

lemma word_succ_unat_iff:
  fixes x n :: "32 word"
  assumes "n \<noteq> 0"
  shows "x + 1 = n \<longleftrightarrow> unat x + 1 = unat n"
proof
  assume "x + 1 = n"
  then have "x = n - 1" by (simp only: word_succ_eq_iff)
  then have "unat x = unat n - 1" using unat_minus_one[OF assms] by simp
  moreover from assms have "0 < unat n" by (simp add: unat_gt_0)
  ultimately show "unat x + 1 = unat n" by simp
next
  assume "unat x + 1 = unat n"
  then have "word_of_nat (unat x + 1) = (word_of_nat (unat n) :: 32 word)" by simp
  then show "x + 1 = n" by (simp add: add.commute)
qed

text \<open>
  Claim C5. In state \<^verbatim>\<open>accepting_registrations\<close> a \<^verbatim>\<open>player_registered\<close> event runs
  \<^verbatim>\<open>register_player\<close> in both cases, and the tournament moves to \<^verbatim>\<open>awaiting_start\<close>
  exactly when, before the event, \<^verbatim>\<open>registered_players + 1 == number_of_players\<close> (in
  \<^verbatim>\<open>uint32_t\<close> arithmetic, and for a non-zero number of players also as natural
  numbers); otherwise it stays in \<^verbatim>\<open>accepting_registrations\<close>.
\<close>

theorem player_registered_moves_to_awaiting_start:
  assumes "state t = accepting_registrations"
  shows "process_event rng (player_registered payer_id player_id) (db, t) =
           (case register_player payer_id player_id (db, t) of
              Inl e \<Rightarrow> Inl e
            | Inr (db1, t1) \<Rightarrow>
                if registered_players t + 1 = number_of_players (options t)
                then (case awaiting_start_on_entry db1 t1 of
                        Inl e \<Rightarrow> Inl e
                      | Inr t2 \<Rightarrow> Inr (db1, t2\<lparr>state := awaiting_start\<rparr>))
                else Inr (db1, t1\<lparr>state := accepting_registrations\<rparr>))
       \<and> (\<forall>db' t'. process_event rng (player_registered payer_id player_id) (db, t)
                       = Inr (db', t') \<longrightarrow>
            (state t' = awaiting_start
               \<longleftrightarrow> registered_players t + 1 = number_of_players (options t))
          \<and> (state t' = accepting_registrations
               \<longleftrightarrow> registered_players t + 1 \<noteq> number_of_players (options t))
          \<and> (number_of_players (options t) \<noteq> 0 \<longrightarrow>
               (state t' = awaiting_start
                  \<longleftrightarrow> unat (registered_players t) + 1
                        = unat (number_of_players (options t))))
          \<and> (\<exists>t1. register_player payer_id player_id (db, t) = Inr (db', t1)
                  \<and> prize_pool t' = prize_pool t1
                  \<and> registered_players t' = registered_players t1))"
proof (intro conjI allI impI)
  show eq: "process_event rng (player_registered payer_id player_id) (db, t) =
           (case register_player payer_id player_id (db, t) of
              Inl e \<Rightarrow> Inl e
            | Inr (db1, t1) \<Rightarrow>
                if registered_players t + 1 = number_of_players (options t)
                then (case awaiting_start_on_entry db1 t1 of
                        Inl e \<Rightarrow> Inl e
                      | Inr t2 \<Rightarrow> Inr (db1, t2\<lparr>state := awaiting_start\<rparr>))
                else Inr (db1, t1\<lparr>state := accepting_registrations\<rparr>))"
    using assms
    by (simp add: will_be_fully_registered_def word_succ_eq_iff split: sum.splits)
  fix db' t'
  assume step: "process_event rng (player_registered payer_id player_id) (db, t) = Inr (db', t')"
  from step[unfolded eq]
  show "state t' = awaiting_start
          \<longleftrightarrow> registered_players t + 1 = number_of_players (options t)"
    by (auto split: sum.splits if_splits)
  from step[unfolded eq]
  show "state t' = accepting_registrations
          \<longleftrightarrow> registered_players t + 1 \<noteq> number_of_players (options t)"
    by (auto split: sum.splits if_splits)
  show "state t' = awaiting_start
          \<longleftrightarrow> unat (registered_players t) + 1 = unat (number_of_players (options t))"
    if "number_of_players (options t) \<noteq> 0"
    using step[unfolded eq] word_succ_unat_iff[OF that, of "registered_players t"]
    by (auto split: sum.splits if_splits)
  from step[unfolded eq]
  show "\<exists>t1. register_player payer_id player_id (db, t) = Inr (db', t1)
                  \<and> prize_pool t' = prize_pool t1
                  \<and> registered_players t' = registered_players t1"
    by (auto split: sum.splits if_splits dest!: awaiting_start_on_entry_fields)
qed

lemmas example_state_defs =
  example_rng_def registration_db_def example_tournament_def example_options_def

lemmas register_player_eval =
  register_player_def safe_negate_def safe_add_def adjust_balance_def flat_map_at_def
  awaiting_start_on_entry_def will_be_fully_registered_def Let_def

theorem player_registered_moves_to_awaiting_start_witness:
  "state (example_tournament 4 3 30 accepting_registrations) = accepting_registrations
   \<and> number_of_players (options (example_tournament 4 3 30 accepting_registrations)) \<noteq> 0
   \<and> (case process_event example_rng (player_registered 4 4)
              (registration_db [(1, 10), (2, 10), (3, 10)],
               example_tournament 4 3 30 accepting_registrations) of
         Inl e \<Rightarrow> False
       | Inr (db', t') \<Rightarrow>
           state t' = awaiting_start \<and> registered_players t' = 4 \<and> prize_pool t' = 40
           \<and> start_time t' = Some 160)
   \<and> (case process_event example_rng (player_registered 2 2)
              (registration_db [(1, 10)],
               example_tournament 4 1 10 accepting_registrations) of
         Inl e \<Rightarrow> False
       | Inr (db', t') \<Rightarrow>
           state t' = accepting_registrations \<and> registered_players t' = 2
           \<and> prize_pool t' = 20 \<and> start_time t' = None)"
  using player_registered_moves_to_awaiting_start
          [of "example_tournament 4 3 30 accepting_registrations" example_rng 4 4
              "registration_db [(1, 10), (2, 10), (3, 10)]"]
  by (simp add: example_state_defs register_player_eval)

theorem prize_pool_is_sum_of_payers_witness:
  "ledger_invariant (registration_db [(1, 10)]) (example_tournament 4 1 10 accepting_registrations)
   \<and> (case process_event example_rng (player_registered 2 3)
              (registration_db [(1, 10)], example_tournament 4 1 10 accepting_registrations) of
         Inl e \<Rightarrow> False
       | Inr (db', t') \<Rightarrow> ledger_invariant db' t' \<and> prize_pool t' = 20)
   \<and> (case register_player 2 3
              (registration_db [(1, 10)], example_tournament 4 1 10 accepting_registrations) of
         Inl e \<Rightarrow> False
       | Inr (db1, t1) \<Rightarrow>
           map_option payers (tournament_details_index db1 0) = Some [(1, 10), (2, 10)]
           \<and> map_option details_registered_players (tournament_details_index db1 0) = Some [1, 3]
           \<and> prize_pool t1 = 20 \<and> registered_players t1 = 2)"
proof -
  let ?db = "registration_db [(1, 10)]"
  let ?t = "example_tournament 4 1 10 accepting_registrations"
  have inv: "ledger_invariant ?db ?t"
    by (simp add: ledger_invariant_def flat_map_sorted_def example_state_defs)
  obtain db' t' where step: "process_event example_rng (player_registered 2 3) (?db, ?t) = Inr (db', t')"
    and pool: "prize_pool t' = 20"
    by (simp add: example_state_defs register_player_eval)
  obtain db1 t1 where reg: "register_player 2 3 (?db, ?t) = Inr (db1, t1)"
    and eff: "map_option payers (tournament_details_index db1 0) = Some [(1, 10), (2, 10)]
           \<and> map_option details_registered_players (tournament_details_index db1 0) = Some [1, 3]
           \<and> prize_pool t1 = 20 \<and> registered_players t1 = 2"
    by (simp add: example_state_defs register_player_eval)
  from prize_pool_is_sum_of_payers[of ?db ?t example_rng "player_registered 2 3" db' t' 2 3 db1 t1]
    inv step
  have "ledger_invariant db' t'" by blast
  with inv step pool reg eff show ?thesis by simp
qed

lemma refund_payers_balances:
  assumes "\<forall>x\<in>set ps. 0 \<le> snd x"
  shows "\<exists>db'. refund_payers aid ps db = Inr db'
     \<and> db' = db\<lparr>balances := balances db'\<rparr>
     \<and> (\<forall>a b. balances db' a b = balances db a b + (if b = aid then refunded ps a else 0))"
  using assms
proof (induction ps arbitrary: db)
  case Nil
  then show ?case by (simp add: refunded_def)
next
  case (Cons p ps)
  obtain payer paid where p: "p = (payer, paid)" by (cases p)
  with Cons.prems have nonneg: "0 \<le> paid" and rest: "\<forall>x\<in>set ps. 0 \<le> snd x" by auto
  define db1 where "db1 = db\<lparr>balances := (balances db)(payer :=
                     (balances db payer)(aid := balances db payer aid + paid))\<rparr>"
  have a: "adjust_balance db payer \<lparr>amount = paid, asset_id = aid\<rparr> = Inr db1"
    using nonneg by (simp add: adjust_balance_def db1_def)
  from Cons.IH[OF rest, of db1] obtain db' where
    r: "refund_payers aid ps db1 = Inr db'" and f: "db' = db1\<lparr>balances := balances db'\<rparr>"
    and b: "\<forall>a b. balances db' a b = balances db1 a b + (if b = aid then refunded ps a else 0)"
    by blast
  have "refund_payers aid (p # ps) db = Inr db'" using p a r by simp
  moreover have "db' = db\<lparr>balances := balances db'\<rparr>"
    using f by (simp add: db1_def)
  moreover have "\<forall>a b. balances db' a b
      = balances db a b + (if b = aid then refunded (p # ps) a else 0)"
    using b p by (auto simp: db1_def refunded_def)
  ultimately show ?case by blast
qed

lemma refunded_distinct:
  "distinct (map fst ps) \<Longrightarrow> (a, v) \<in> set ps \<Longrightarrow> refunded ps a = v"
proof (induction ps)
  case Nil
  then show ?case by simp
next
  case (Cons p ps)
  show ?case
  proof (cases "p = (a, v)")
    case True
    with Cons.prems have "a \<notin> fst ` set ps" by simp
    then have "filter (\<lambda>x. fst x = a) ps = []" by (auto simp: filter_empty_conv)
    with True show ?thesis by (simp add: refunded_def)
  next
    case False
    with Cons.prems have mem: "(a, v) \<in> set ps" by simp
    then have "a \<in> fst ` set ps" by force
    with Cons.prems have "fst p \<noteq> a" by auto
    moreover from Cons mem have "refunded ps a = v" by simp
    ultimately show ?thesis by (simp add: refunded_def)
  qed
qed

lemma refunded_absent: "a \<notin> fst ` set ps \<Longrightarrow> refunded ps a = 0"
proof -
  assume "a \<notin> fst ` set ps"
  then have "filter (\<lambda>x. fst x = a) ps = []" by (auto simp: filter_empty_conv)
  then show ?thesis by (simp add: refunded_def)
qed

text \<open>
  Claim C7. In state \<^verbatim>\<open>accepting_registrations\<close>, with a payers map of distinct keys and
  non-negative amounts, \<^verbatim>\<open>registration_deadline_passed\<close> succeeds, the tournament enters
  \<^verbatim>\<open>registration_period_expired\<close> with no other field changed, each payer's balance of
  the buy-in asset grows by exactly that payer's amount, and nothing else in the
  database changes: not the other balances, not the payers, not the registered players.
\<close>

theorem registration_deadline_refunds_payers:
  assumes "state t = accepting_registrations"
    and "tournament_details_index db (tournament_details_id t) = Some details"
    and "\<forall>x\<in>set (payers details). 0 \<le> snd x"
    and "distinct (map fst (payers details))"
  shows "\<exists>db'.
      process_event rng registration_deadline_passed (db, t)
        = Inr (db', t\<lparr>state := registration_period_expired\<rparr>)
    \<and> (\<forall>x\<in>set (payers details).
          balances db' (fst x) (asset_id (buy_in (options t)))
            = balances db (fst x) (asset_id (buy_in (options t))) + snd x)
    \<and> (\<forall>a. a \<notin> fst ` set (payers details) \<longrightarrow> balances db' a = balances db a)
    \<and> (\<forall>a b. b \<noteq> asset_id (buy_in (options t)) \<longrightarrow> balances db' a b = balances db a b)
    \<and> db' = db\<lparr>balances := balances db'\<rparr>"
proof -
  let ?aid = "asset_id (buy_in (options t))"
  from refund_payers_balances[OF assms(3), of ?aid db] obtain db' where
    r: "refund_payers ?aid (payers details) db = Inr db'"
    and f: "db' = db\<lparr>balances := balances db'\<rparr>"
    and b: "\<forall>a b. balances db' a b
              = balances db a b + (if b = ?aid then refunded (payers details) a else 0)"
    by blast
  have step: "process_event rng registration_deadline_passed (db, t)
        = Inr (db', t\<lparr>state := registration_period_expired\<rparr>)"
    using assms(1,2) r by (simp add: registration_period_expired_on_entry_def)
  have paid: "\<forall>x\<in>set (payers details). balances db' (fst x) ?aid = balances db (fst x) ?aid + snd x"
  proof
    fix x assume "x \<in> set (payers details)"
    then have "refunded (payers details) (fst x) = snd x"
      using refunded_distinct[OF assms(4), of "fst x" "snd x"] by simp
    with b show "balances db' (fst x) ?aid = balances db (fst x) ?aid + snd x" by simp
  qed
  have others: "\<forall>a. a \<notin> fst ` set (payers details) \<longrightarrow> balances db' a = balances db a"
    using b by (auto simp: refunded_absent fun_eq_iff)
  have assets: "\<forall>a b. b \<noteq> ?aid \<longrightarrow> balances db' a b = balances db a b"
    using b by simp
  from step paid others assets f show ?thesis by blast
qed

theorem registration_deadline_refunds_payers_witness:
  "state (example_tournament 4 2 20 accepting_registrations) = accepting_registrations
   \<and> tournament_details_index (registration_db [(1, 10), (2, 10)]) 0
       = Some \<lparr>details_registered_players = [1, 2], payers = [(1, 10), (2, 10)], matches = []\<rparr>
   \<and> 0 \<le> snd (1 :: nat, 10 :: int) \<and> 0 \<le> snd (2 :: nat, 10 :: int)
   \<and> distinct (map fst [(1 :: nat, 10 :: int), (2, 10)])
   \<and> (case process_event example_rng registration_deadline_passed
              (registration_db [(1, 10), (2, 10)],
               example_tournament 4 2 20 accepting_registrations) of
         Inl e \<Rightarrow> False
       | Inr (db', t') \<Rightarrow>
           state t' = registration_period_expired
           \<and> balances db' 1 0 = 35 \<and> balances db' 2 0 = 35 \<and> balances db' 3 0 = 25
           \<and> map_option payers (tournament_details_index db' 0) = Some [(1, 10), (2, 10)]
           \<and> registered_players t' = 2 \<and> prize_pool t' = 20)"
  using registration_deadline_refunds_payers
          [of "example_tournament 4 2 20 accepting_registrations"
              "registration_db [(1, 10), (2, 10)]"
              "\<lparr>details_registered_players = [1, 2], payers = [(1, 10), (2, 10)], matches = []\<rparr>"
              example_rng]
  by (simp add: example_state_defs registration_period_expired_on_entry_def adjust_balance_def)

section \<open>Bit reversal and the position of a player\<close>

lemma unat_div_power_zero:
  assumes "unat (p :: 32 word) < 2 ^ r" and "r \<le> k"
  shows "unat p div 2 ^ k = 0"
proof -
  have "(2::nat) ^ r \<le> 2 ^ k" using assms(2) by (simp add: power_increasing)
  with assms(1) have "unat p < 2 ^ k" by (rule less_le_trans)
  then show ?thesis by (rule div_less)
qed

lemma bit_above_bound:
  assumes "unat (p :: 32 word) < 2 ^ r" and "r \<le> k"
  shows "\<not> bit p k"
proof -
  have "unat p div 2 ^ k = 0" using assms by (rule unat_div_power_zero)
  then have "\<not> bit (unat p) k" by (simp add: bit_iff_odd)
  then show ?thesis by (simp add: bit_unsigned_iff)
qed



lemma unat_word_of_nat_32: "p < 2 ^ 32 \<Longrightarrow> unat (word_of_nat p :: 32 word) = p"
  by (simp add: unat_of_nat)

lemma msb_index_bounds: "0 < n \<Longrightarrow> 2 ^ msb_index n \<le> n \<and> n < 2 ^ Suc (msb_index n)"
proof (induction n rule: msb_index.induct)
  case (1 n)
  show ?case
  proof (cases "n < 2")
    case True
    with "1.prems" have "n = 1" by simp
    then show ?thesis by (simp add: msb_index.simps)
  next
    case False
    then have "0 < n div 2" by simp
    from "1.IH"[OF False this] have "2 ^ msb_index (n div 2) \<le> n div 2"
      and "n div 2 < 2 ^ Suc (msb_index (n div 2))" by simp_all
    moreover have "msb_index n = Suc (msb_index (n div 2))"
      using False by (subst msb_index.simps) simp
    ultimately show ?thesis by simp linarith
  qed
qed

lemma unat_two_power: "r < 32 \<Longrightarrow> unat ((2 :: 32 word) ^ r) = 2 ^ r"
proof -
  assume r: "r < 32"
  have "(2 :: 32 word) ^ r = word_of_nat (2 ^ r)" by simp
  then have "unat ((2 :: 32 word) ^ r) = 2 ^ r mod 2 ^ 32"
    by (simp only: unat_of_nat) simp
  moreover have "(2::nat) ^ r < 2 ^ 32" using r by (intro power_strict_increasing) simp_all
  ultimately show ?thesis by simp
qed

lemma unat_push_bit_one: "r < 32 \<Longrightarrow> unat (push_bit r (1 :: 32 word)) = 2 ^ r"
  by (simp add: unat_two_power)

lemma unat_push_bit_one_minus: "r < 32 \<Longrightarrow> unat (push_bit r (1 :: 32 word) - 1) = 2 ^ r - 1"
proof -
  assume r: "r < 32"
  then have "unat ((2 :: 32 word) ^ r) = 2 ^ r" by (rule unat_two_power)
  then have "(2 :: 32 word) ^ r \<noteq> 0" by (metis power_not_zero unat_0 zero_neq_numeral)
  then have "unat ((2 :: 32 word) ^ r - 1) = unat ((2 :: 32 word) ^ r) - 1" by (rule unat_minus_one)
  then show ?thesis using r by (simp add: unat_two_power)
qed

lemma unat_push_bit_one_double:
  "0 < r \<Longrightarrow> r < 32 \<Longrightarrow> unat (push_bit (r - 1) (1 :: 32 word) * 2) = 2 ^ r"
proof -
  assume r: "0 < r" "r < 32"
  have "push_bit (r - 1) (1 :: 32 word) * 2 = 2 ^ Suc (r - 1)" by simp
  also have "\<dots> = 2 ^ r" using r by simp
  finally show ?thesis using r by (simp only: unat_two_power)
qed

lemma unat_position_less:
  assumes "0 < r" "r \<le> 32"
  shows "unat (player_position r p) < 2 ^ r"
proof -
  have "unat (player_position r p) = unat (reverse_bits (p XOR drop_bit 1 p)) div 2 ^ (32 - r)"
    unfolding player_position_def by (metis drop_bit_eq_div unat_drop_bit_eq)
  moreover have "unat (reverse_bits (p XOR drop_bit 1 p)) < 2 ^ 32"
    using unsigned_less[of "reverse_bits (p XOR drop_bit 1 p)"] by simp
  moreover have "(2::nat) ^ 32 = 2 ^ r * 2 ^ (32 - r)"
    using assms by (simp flip: power_add)
  ultimately show ?thesis
    by (simp add: less_mult_imp_div_less)
qed

lemma bit_word_double:
  "bit ((x :: 32 word) * 2) n \<longleftrightarrow> 0 < n \<and> n < 32 \<and> bit x (n - 1)"
  using bit_double_iff[of x n] by (auto simp: mult.commute possible_bit_word)

lemma nat_less_32_cases:
  "n < 32 \<Longrightarrow>
     n \<in> {0, 1, 2, 3, 4, 5, 6, 7, 8, 9, 10, 11, 12, 13, 14, 15, 16, 17, 18, 19, 20, 21, 22,
           23, 24, 25, 26, 27, 28, 29, 30, 31 :: nat}"
  by (simp only: insert_iff empty_iff) arith

lemma bit_reverse_bits_less:
  "n < 32 \<Longrightarrow> bit (reverse_bits x) n = bit x (31 - n)"
  apply (drule nat_less_32_cases)
  apply (simp only: insert_iff empty_iff)
  apply (elim disjE)
  apply (simp_all add: reverse_bits_def Let_def bit_simps bit_word_double)
  done

lemma bit_reverse_bits: "bit (reverse_bits x) n \<longleftrightarrow> n < 32 \<and> bit x (31 - n)"
proof (cases "n < 32")
  case True
  then show ?thesis by (simp add: bit_reverse_bits_less)
next
  case False
  then have "\<not> bit (reverse_bits x) n" by (auto dest: bit_imp_le_length)
  with False show ?thesis by simp
qed

lemma bit_gray: "bit ((p :: 32 word) XOR drop_bit 1 p) k \<longleftrightarrow> (bit p k \<noteq> bit p (Suc k))"
  by (simp add: bit_xor_iff bit_drop_bit_eq)

lemma bit_player_position:
  assumes "num_rounds \<le> 32"
  shows "bit (player_position num_rounds p) n
           \<longleftrightarrow> n < num_rounds \<and> (bit p (num_rounds - 1 - n) \<noteq> bit p (num_rounds - n))"
proof -
  let ?m = "32 - num_rounds + n"
  have pos: "bit (player_position num_rounds p) n
          \<longleftrightarrow> bit (reverse_bits (p XOR drop_bit 1 p)) ?m"
    by (simp add: player_position_def bit_drop_bit_eq)
  show ?thesis
  proof (cases "n < num_rounds")
    case True
    with assms have m: "?m < 32" and i: "31 - ?m = num_rounds - 1 - n"
      and s: "Suc (num_rounds - 1 - n) = num_rounds - n"
      by arith+
    have "bit (reverse_bits (p XOR drop_bit 1 p)) ?m
            \<longleftrightarrow> bit (p XOR drop_bit 1 p) (num_rounds - 1 - n)"
      using m i by (simp only: bit_reverse_bits) simp
    also have "\<dots> \<longleftrightarrow> (bit p (num_rounds - 1 - n) \<noteq> bit p (num_rounds - n))"
      by (simp only: bit_gray s)
    finally show ?thesis using pos True by simp
  next
    case False
    with assms have "\<not> ?m < 32" by arith
    then have "\<not> bit (reverse_bits (p XOR drop_bit 1 p)) ?m"
      by (simp only: bit_reverse_bits) simp
    with pos False show ?thesis by simp
  qed
qed

lemma player_position_inj:
  assumes r: "num_rounds \<le> 32"
    and p: "unat p < 2 ^ num_rounds" and q: "unat q < 2 ^ num_rounds"
    and eq: "player_position num_rounds p = player_position num_rounds q"
  shows "p = q"
proof -
  have gray: "(bit p k \<noteq> bit p (Suc k)) = (bit q k \<noteq> bit q (Suc k))" if "k < num_rounds" for k
  proof -
    from that have n: "num_rounds - 1 - k < num_rounds"
      and a: "num_rounds - 1 - (num_rounds - 1 - k) = k"
      and b: "num_rounds - (num_rounds - 1 - k) = Suc k"
      by arith+
    from eq have "bit (player_position num_rounds p) (num_rounds - 1 - k)
        = bit (player_position num_rounds q) (num_rounds - 1 - k)" by simp
    then show ?thesis
      unfolding bit_player_position[OF r] using n by (simp only: a b) simp
  qed
  have down: "bit p (num_rounds - j) = bit q (num_rounds - j)" if "j \<le> num_rounds" for j
    using that
  proof (induction j)
    case 0
    have "\<not> bit p num_rounds" "\<not> bit q num_rounds"
      by (rule bit_above_bound[OF p order_refl], rule bit_above_bound[OF q order_refl])
    then show ?case by simp
  next
    case (Suc j)
    then have k: "num_rounds - Suc j < num_rounds" and s: "Suc (num_rounds - Suc j) = num_rounds - j"
      and "j \<le> num_rounds" by arith+
    with Suc.IH have ih: "bit p (num_rounds - j) = bit q (num_rounds - j)" by simp
    from gray[OF k] ih show ?case by (simp only: s) blast
  qed
  show ?thesis
  proof (rule bit_word_eqI)
    fix k
    show "bit p k = bit q k"
    proof (cases "k \<le> num_rounds")
      case True
      then have "num_rounds - (num_rounds - k) = k" by simp
      with down[of "num_rounds - k"] show ?thesis by simp
    next
      case False
      then have "num_rounds \<le> k" by simp
      then have "\<not> bit p k" "\<not> bit q k"
        by (rule bit_above_bound[OF p], rule bit_above_bound[OF q])
      then show ?thesis by simp
    qed
  qed
qed


lemma rounds_for_bounds:
  assumes "2 \<le> unat N"
  shows "2 ^ (rounds_for N - 1) < unat N \<and> unat N \<le> 2 ^ rounds_for N
         \<and> 2 ^ (rounds_for N - 1) \<le> unat (N - 1) \<and> unat (N - 1) < 2 ^ rounds_for N
         \<and> rounds_for N \<le> 32 \<and> N - 1 \<noteq> 0"
proof -
  from assms have "N \<noteq> 0" by auto
  then have u: "unat (N - 1) = unat N - 1" by (rule unat_minus_one)
  with assms have pos: "0 < unat (N - 1)" by simp
  then have ne: "N - 1 \<noteq> 0" by auto
  from msb_index_bounds[OF pos]
  have lo: "2 ^ msb_index (unat (N - 1)) \<le> unat (N - 1)"
    and hi: "unat (N - 1) < 2 ^ Suc (msb_index (unat (N - 1)))" by simp_all
  have "unat (N - 1) < 2 ^ 32" using unsigned_less[of "N - 1"] by simp
  with lo have "(2::nat) ^ msb_index (unat (N - 1)) < 2 ^ 32" by simp
  then have "msb_index (unat (N - 1)) < 32" by (simp only: power_strict_increasing_iff)
  then have r32: "rounds_for N \<le> 32" by (simp add: rounds_for_def)
  define a where "a = (2::nat) ^ msb_index (unat (N - 1))"
  have "a \<le> unat N - 1" "unat N - 1 < 2 * a" using lo hi u by (simp_all add: a_def)
  with assms have "a < unat N" "unat N \<le> 2 * a" by arith+
  then have "2 ^ (rounds_for N - 1) < unat N" "unat N \<le> 2 ^ rounds_for N"
    by (simp_all add: rounds_for_def a_def)
  moreover have "2 ^ (rounds_for N - 1) \<le> unat (N - 1)" "unat (N - 1) < 2 ^ rounds_for N"
    using lo hi by (simp_all add: rounds_for_def)
  ultimately show ?thesis using r32 ne by simp
qed

lemma rounds_for_less_32:
  assumes "2 \<le> unat N" "unat N \<le> 2 ^ 31"
  shows "rounds_for N < 32"
proof -
  from rounds_for_bounds[OF assms(1)] have "2 ^ (rounds_for N - 1) < unat N" by simp
  with assms(2) have "(2::nat) ^ (rounds_for N - 1) < 2 ^ 31" by simp
  then have "rounds_for N - 1 < 31" by (simp only: power_strict_increasing_iff)
  then show ?thesis by simp
qed

lemma bracket_sizes_Inr:
  assumes "2 \<le> unat N" "unat N \<le> 2 ^ 31"
  shows "bracket_sizes N =
           Inr (rounds_for N, push_bit (rounds_for N) 1 - 1, push_bit (rounds_for N - 1) 1)"
  using rounds_for_bounds[OF assms(1)] rounds_for_less_32[OF assms]
  by (simp add: bracket_sizes_def find_msb_def rounds_for_def)

lemma bracket_sizes_InrD:
  assumes "bracket_sizes N = Inr (r, nm, nf)"
  shows "2 \<le> unat N \<and> unat N \<le> 2 ^ 31 \<and> r = rounds_for N
         \<and> nm = push_bit r 1 - 1 \<and> nf = push_bit (r - 1) 1"
proof -
  from assms have ne: "N - 1 \<noteq> 0" and r: "r = rounds_for N" and lt: "r < 32"
    and nm: "nm = push_bit r 1 - 1" and nf: "nf = push_bit (r - 1) 1"
    by (auto simp: bracket_sizes_def find_msb_def rounds_for_def Let_def split: if_splits)
  from ne have pos: "0 < unat (N - 1)" by (simp add: unat_gt_0)
  from msb_index_bounds[OF pos] r have "unat (N - 1) < 2 ^ r" by (simp add: rounds_for_def)
  also have "(2::nat) ^ r \<le> 2 ^ 31" using lt by (intro power_increasing) simp_all
  finally have small: "unat (N - 1) < 2 ^ 31" .
  have "N \<noteq> 0"
  proof
    assume "N = 0"
    then have "unat (N - 1) = 2 ^ 32 - 1" by (simp add: unsigned_minus_1_eq_mask mask_eq_exp_minus_1)
    with small show False by simp
  qed
  then have "unat (N - 1) = unat N - 1" by (rule unat_minus_one)
  with pos small have "2 \<le> unat N \<and> unat N \<le> 2 ^ 31" by simp
  with r nm nf show ?thesis by simp
qed

lemma assign_players_Inr:
  assumes "\<forall>p\<in>set ps. paired_index r p < length paired \<and> p < length seeded"
  shows "assign_players r seeded ps paired
           = Inr (fold (\<lambda>p acc. acc[paired_index r p := seeded ! p]) ps paired)"
  using assms by (induction ps arbitrary: paired) (simp_all add: paired_index_def Let_def)

lemma length_fold_update: "length (fold (\<lambda>p acc. acc[f p := g p]) ps xs) = length xs"
  by (induction ps arbitrary: xs) simp_all

lemma fold_update_untouched:
  "q \<notin> f ` set ps \<Longrightarrow> fold (\<lambda>p acc. acc[f p := g p]) ps xs ! q = xs ! q"
  by (induction ps arbitrary: xs) auto

lemma fold_update_nth:
  assumes "distinct ps" "inj_on f (set ps)" "p \<in> set ps" "f p < length xs"
  shows "fold (\<lambda>p acc. acc[f p := g p]) ps xs ! f p = g p"
  using assms
proof (induction ps arbitrary: xs)
  case Nil
  then show ?case by simp
next
  case (Cons a ps)
  show ?case
  proof (cases "p = a")
    case True
    have "f a \<notin> f ` set ps"
    proof
      assume "f a \<in> f ` set ps"
      then obtain b where b: "b \<in> set ps" "f a = f b" by auto
      with Cons.prems(2) have "a = b" by (auto dest: inj_onD)
      with b Cons.prems(1) show False by simp
    qed
    then have "fold (\<lambda>p acc. acc[f p := g p]) ps (xs[f a := g a]) ! f a = xs[f a := g a] ! f a"
      by (rule fold_update_untouched)
    with True Cons.prems(4) show ?thesis by simp
  next
    case False
    with Cons.prems have "p \<in> set ps" "distinct ps" "inj_on f (set ps)"
      "f p < length (xs[f a := g a])" by (auto simp: inj_on_def)
    from Cons.IH[OF this(2,3,1,4)] show ?thesis by simp
  qed
qed

lemma paired_index_inj:
  assumes "2 \<le> unat N"
  shows "inj_on (paired_index (rounds_for N)) {..<unat N}"
proof (rule inj_onI)
  fix p q assume pq: "p \<in> {..<unat N}" "q \<in> {..<unat N}"
    and eq: "paired_index (rounds_for N) p = paired_index (rounds_for N) q"
  from rounds_for_bounds[OF assms] have le: "unat N \<le> 2 ^ rounds_for N"
    and r: "rounds_for N \<le> 32" by simp_all
  have n32: "unat N < 2 ^ 32" using unsigned_less[of N] by simp
  from pq n32 have up: "unat (word_of_nat p :: 32 word) = p" and uq: "unat (word_of_nat q :: 32 word) = q"
    by (simp_all add: unat_word_of_nat_32)
  from eq have "player_position (rounds_for N) (word_of_nat p)
      = player_position (rounds_for N) (word_of_nat q)"
    by (simp add: paired_index_def word_unat_eq_iff)
  moreover have "unat (word_of_nat p :: 32 word) < 2 ^ rounds_for N"
    "unat (word_of_nat q :: 32 word) < 2 ^ rounds_for N"
    using pq le by (simp_all only: up uq) simp_all
  ultimately have "(word_of_nat p :: 32 word) = word_of_nat q"
    using player_position_inj[OF r] by blast
  then have "unat (word_of_nat p :: 32 word) = unat (word_of_nat q :: 32 word)" by simp
  then show "p = q" by (simp only: up uq)
qed

lemma paired_index_less:
  assumes "2 \<le> unat N"
  shows "paired_index (rounds_for N) p < 2 ^ rounds_for N"
proof -
  have "0 < rounds_for N" by (simp add: rounds_for_def)
  moreover from rounds_for_bounds[OF assms] have "rounds_for N \<le> 32" by simp
  ultimately show ?thesis unfolding paired_index_def by (rule unat_position_less)
qed

section \<open>The pairing array\<close>

lemma pair_players_eq:
  assumes N: "2 \<le> unat N" "unat N \<le> 2 ^ 31" and len: "length seeded = unat N"
  shows "pair_players N seeded
           = Inr (fold (\<lambda>p acc. acc[paired_index (rounds_for N) p := seeded ! p])
                    [0 ..< unat N] (replicate (2 ^ rounds_for N) null_account))"
proof -
  let ?r = "rounds_for N"
  have r: "0 < ?r" "?r < 32" using rounds_for_less_32[OF N] by (simp_all add: rounds_for_def)
  have size: "unat (push_bit (?r - 1) (1 :: 32 word) * 2) = 2 ^ ?r"
    using r by (rule unat_push_bit_one_double)
  have "\<forall>p\<in>set [0 ..< unat N].
          paired_index ?r p < length (replicate (2 ^ ?r) null_account) \<and> p < length seeded"
    using paired_index_less[OF N(1)] len by simp
  from assign_players_Inr[OF this]
  have "assign_players ?r seeded [0 ..< unat N]
          (replicate (unat (push_bit (?r - 1) (1 :: 32 word) * 2)) null_account)
        = Inr (fold (\<lambda>p acc. acc[paired_index ?r p := seeded ! p])
                 [0 ..< unat N] (replicate (2 ^ ?r) null_account))"
    by (simp only: size)
  then show ?thesis
    unfolding pair_players_def bracket_sizes_Inr[OF N] by (simp only: sum.case prod.case)
qed

lemma pair_players_layout:
  assumes "2 \<le> unat N" and "unat N \<le> 2 ^ 31" and "length seeded = unat N"
  shows "\<exists>paired.
      pair_players N seeded = Inr paired
    \<and> bracket_sizes N
         = Inr (rounds_for N, push_bit (rounds_for N) 1 - 1, push_bit (rounds_for N - 1) 1)
    \<and> length paired = 2 ^ rounds_for N
    \<and> 2 ^ (rounds_for N - 1) \<le> unat N - 1 \<and> unat N - 1 < 2 ^ rounds_for N
    \<and> (\<forall>p<unat N. paired_index (rounds_for N) p < 2 ^ rounds_for N
                    \<and> paired ! paired_index (rounds_for N) p = seeded ! p)
    \<and> inj_on (paired_index (rounds_for N)) {..<unat N}
    \<and> (\<forall>q<2 ^ rounds_for N. q \<notin> paired_index (rounds_for N) ` {..<unat N}
                    \<longrightarrow> paired ! q = null_account)
    \<and> card ({..<2 ^ rounds_for N} - paired_index (rounds_for N) ` {..<unat N})
         = 2 ^ rounds_for N - unat N
    \<and> (distinct seeded \<and> null_account \<notin> set seeded
         \<longrightarrow> (\<forall>x\<in>set seeded. \<exists>!q. q < 2 ^ rounds_for N \<and> paired ! q = x))"
proof -
  let ?r = "rounds_for N"
  let ?idx = "paired_index ?r"
  let ?paired = "fold (\<lambda>p acc. acc[?idx p := seeded ! p]) [0 ..< unat N]
                   (replicate (2 ^ ?r) null_account)"
  note N = assms(1,2) and len = assms(3)
  have eq: "pair_players N seeded = Inr ?paired" by (rule pair_players_eq[OF assms])
  have length: "length ?paired = 2 ^ ?r" by (simp add: length_fold_update)
  have "N \<noteq> 0" using N(1) by auto
  then have u: "unat (N - 1) = unat N - 1" by (rule unat_minus_one)
  from rounds_for_bounds[OF N(1)] u
  have rb: "2 ^ (?r - 1) \<le> unat N - 1" "unat N - 1 < 2 ^ ?r" by simp_all
  have inj: "inj_on ?idx {..<unat N}" by (rule paired_index_inj[OF N(1)])
  have less: "?idx p < 2 ^ ?r" for p by (rule paired_index_less[OF N(1)])
  have set_upt: "set [0 ..< unat N] = {..<unat N}" by auto
  have placed: "?paired ! ?idx p = seeded ! p" if "p < unat N" for p
  proof (rule fold_update_nth)
    show "distinct [0 ..< unat N]" by simp
    show "inj_on ?idx (set [0 ..< unat N])" using inj by (simp add: atLeast0LessThan)
    show "p \<in> set [0 ..< unat N]" using that by simp
    show "?idx p < length (replicate (2 ^ ?r) null_account)" using less by simp
  qed
  have bye: "?paired ! q = null_account" if "q < 2 ^ ?r" "q \<notin> ?idx ` {..<unat N}" for q
  proof -
    from that(2) have "q \<notin> ?idx ` set [0 ..< unat N]" by (simp add: atLeast0LessThan)
    then have "?paired ! q = replicate (2 ^ ?r) null_account ! q"
      by (rule fold_update_untouched)
    with that(1) show ?thesis by simp
  qed
  have sub: "?idx ` {..<unat N} \<subseteq> {..<2 ^ ?r}" using less by auto
  have card: "card ({..<2 ^ ?r} - ?idx ` {..<unat N}) = 2 ^ ?r - unat N"
  proof -
    have "card ({..<2 ^ ?r} - ?idx ` {..<unat N}) = card {..<(2::nat) ^ ?r} - card (?idx ` {..<unat N})"
      using sub by (intro card_Diff_subset) simp_all
    also have "card (?idx ` {..<unat N}) = unat N" using inj by (simp add: card_image)
    finally show ?thesis by simp
  qed
  have once: "\<forall>x\<in>set seeded. \<exists>!q. q < 2 ^ ?r \<and> ?paired ! q = x"
    if d: "distinct seeded \<and> null_account \<notin> set seeded"
  proof
    fix x assume "x \<in> set seeded"
    then obtain p where p: "p < unat N" "seeded ! p = x" using len by (auto simp: in_set_conv_nth)
    show "\<exists>!q. q < 2 ^ ?r \<and> ?paired ! q = x"
    proof (rule ex1I[of _ "?idx p"])
      show "?idx p < 2 ^ ?r \<and> ?paired ! ?idx p = x" using less placed[OF p(1)] p(2) by simp
    next
      fix q assume q: "q < 2 ^ ?r \<and> ?paired ! q = x"
      show "q = ?idx p"
      proof (cases "q \<in> ?idx ` {..<unat N}")
        case True
        then obtain p' where p': "p' < unat N" "q = ?idx p'" by auto
        with q placed[OF p'(1)] have "seeded ! p' = seeded ! p" using p(2) by simp
        with d p(1) p'(1) len have "p' = p" by (simp add: nth_eq_iff_index_eq)
        with p'(2) show ?thesis by simp
      next
        case False
        with q bye have "x = null_account" by auto
        with d \<open>x \<in> set seeded\<close> show ?thesis by simp
      qed
    qed
  qed
  have sizes: "bracket_sizes N
         = Inr (rounds_for N, push_bit (rounds_for N) 1 - 1, push_bit (rounds_for N - 1) 1)"
    by (rule bracket_sizes_Inr[OF N])
  from eq sizes length rb placed less inj bye card once show ?thesis by blast
qed

text \<open>
  Claim C3, for the numbers of players that the 32-bit arithmetic of the builder
  covers, \<open>2 \<le> N \<le> 2^31\<close>. With \<open>R = floor(log2(N - 1)) + 1\<close> (the bounds on
  \<open>rounds_for N\<close> say so), the pairing array has length \<open>2^R\<close>; every player number
  below \<open>N\<close> has its own index, at which the array holds that seeded player; every other
  index holds the null account id, and there are \<open>2^R - N\<close> of them. When the seeded
  players are distinct and none is the null id, each appears at exactly one index.
\<close>

theorem pair_players_places_every_player:
  assumes "2 \<le> unat N" and "unat N \<le> 2 ^ 31" and "length seeded = unat N"
  shows "\<exists>paired.
      pair_players N seeded = Inr paired
    \<and> bracket_sizes N
         = Inr (rounds_for N, push_bit (rounds_for N) 1 - 1, push_bit (rounds_for N - 1) 1)
    \<and> length paired = 2 ^ rounds_for N
    \<and> 2 ^ (rounds_for N - 1) \<le> unat N - 1 \<and> unat N - 1 < 2 ^ rounds_for N
    \<and> (\<forall>p<unat N. paired_index (rounds_for N) p < 2 ^ rounds_for N
                    \<and> paired ! paired_index (rounds_for N) p = seeded ! p)
    \<and> inj_on (paired_index (rounds_for N)) {..<unat N}
    \<and> (\<forall>q<2 ^ rounds_for N. q \<notin> paired_index (rounds_for N) ` {..<unat N}
                    \<longrightarrow> paired ! q = null_account)
    \<and> card ({..<2 ^ rounds_for N} - paired_index (rounds_for N) ` {..<unat N})
         = 2 ^ rounds_for N - unat N
    \<and> (distinct seeded \<and> null_account \<notin> set seeded
         \<longrightarrow> (\<forall>x\<in>set seeded. \<exists>!q. q < 2 ^ rounds_for N \<and> paired ! q = x))"
  using assms by (rule pair_players_layout)

theorem pair_players_places_every_player_witness:
  "2 \<le> unat (5 :: 32 word) \<and> unat (5 :: 32 word) \<le> 2 ^ 31
   \<and> length [11, 12, 13, 14, 15 :: nat] = unat (5 :: 32 word)
   \<and> rounds_for 5 = 3
   \<and> pair_players 5 [11, 12, 13, 14, 15] = Inr [11, 0, 14, 15, 12, 0, 13, 0]
   \<and> map (paired_index 3) [0, 1, 2, 3, 4] = [0, 4, 6, 2, 3]"
proof -
  have r: "rounds_for 5 = 3" by (simp add: rounds_for_def msb_index.simps)
  have e: "pair_players 5 [11, 12, 13, 14, 15] = Inr [11, 0, 14, 15, 12, 0, 13, 0]"
    by code_simp
  have i: "map (paired_index 3) [0, 1, 2, 3, 4] = [0, 4, 6, 2, 3]"
    by code_simp
  from pair_players_places_every_player[of 5 "[11, 12, 13, 14, 15]"] r e i
  show ?thesis by simp
qed

text \<open>
  For \<open>N = 2^31 + 1\<close> the number of rounds is 32 and the builder has no array of length
  \<open>2^32\<close>: the shift \<^verbatim>\<open>1 << 32\<close> is undefined and the array size, computed in
  \<^verbatim>\<open>uint32_t\<close>, cannot be \<open>2^32\<close>.
\<close>

theorem pair_players_beyond_word_counterexample:
  "length [1 ..< 2147483650] = unat (0x80000001 :: 32 word)
   \<and> pair_players 0x80000001 [1 ..< 2147483650] = Inl Undefined_shift"
  by (simp add: pair_players_def bracket_sizes_def find_msb_def msb_index.simps)





section \<open>Creating and initiating matches\<close>

lemma create_empty_matches_result:
  "create_empty_matches tid k (ids, db) = (ms, db1) \<Longrightarrow>
     ms = ids @ [next_match_id db ..< next_match_id db + k]
     \<and> next_match_id db1 = next_match_id db + k
     \<and> (\<forall>i. match_index db1 i =
               (if next_match_id db \<le> i \<and> i < next_match_id db + k
                then Some (empty_match db tid) else match_index db i))
     \<and> head_block_time db1 = head_block_time db
     \<and> tournament_details_index db1 = tournament_details_index db
     \<and> balances db1 = balances db"
proof (induction k arbitrary: ids db)
  case 0
  then show ?case by auto
next
  case (Suc k)
  let ?db' = "db\<lparr>match_index := (match_index db)(next_match_id db \<mapsto> empty_match db tid),
                  next_match_id := Suc (next_match_id db)\<rparr>"
  from Suc.prems have "create_empty_matches tid k (ids @ [next_match_id db], ?db') = (ms, db1)"
    by (simp add: create_match_def empty_match_def Let_def)
  from Suc.IH[OF this] show ?case
    by (auto simp: empty_match_def upt_conv_Cons)
qed

lemma players_on_initiate_match [simp]: "players (on_initiate_match db ps m) = ps"
  by (simp add: on_initiate_match_def)

lemma on_initiate_match_db: "on_initiate_match db ps m = on_initiate_match db0 ps m"
  by (simp add: on_initiate_match_def)

lemma initiate_first_round_result:
  assumes "initiate_first_round ms paired idxs db = Inr db'"
    and "distinct idxs" and "inj_on (\<lambda>i. ms ! i) (set idxs)"
  shows "(\<forall>i\<in>set idxs. \<exists>m. match_index db (ms ! i) = Some m
              \<and> match_index db' (ms ! i)
                   = Some (on_initiate_match db (first_round_players paired i) m))
       \<and> (\<forall>k. k \<notin> (\<lambda>i. ms ! i) ` set idxs \<longrightarrow> match_index db' k = match_index db k)
       \<and> tournament_details_index db' = tournament_details_index db"
  using assms
proof (induction idxs arbitrary: db)
  case Nil
  then show ?case by simp
next
  case (Cons a idxs)
  from Cons.prems(1) obtain m where m: "match_index db (ms ! a) = Some m"
    by (auto split: if_splits option.splits)
  let ?db1 = "db\<lparr>match_index := (match_index db)(ms ! a \<mapsto>
                  on_initiate_match db (first_round_players paired a) m)\<rparr>"
  from Cons.prems(1) m have rest: "initiate_first_round ms paired idxs ?db1 = Inr db'"
    by (auto split: if_splits)
  from Cons.prems(2,3) have d: "distinct idxs" and inj: "inj_on (\<lambda>i. ms ! i) (set idxs)"
    and fresh: "ms ! a \<notin> (\<lambda>i. ms ! i) ` set idxs"
    by (auto simp: inj_on_def)
  from Cons.IH[OF rest d inj]
  have ih1: "\<forall>i\<in>set idxs. \<exists>m. match_index ?db1 (ms ! i) = Some m
              \<and> match_index db' (ms ! i)
                   = Some (on_initiate_match ?db1 (first_round_players paired i) m)"
    and ih2: "\<forall>k. k \<notin> (\<lambda>i. ms ! i) ` set idxs \<longrightarrow> match_index db' k = match_index ?db1 k"
    and ih3: "tournament_details_index db' = tournament_details_index ?db1"
    by blast+
  have first: "match_index db' (ms ! a)
        = Some (on_initiate_match db (first_round_players paired a) m)"
    using ih2 fresh by simp
  have others: "\<exists>m. match_index db (ms ! i) = Some m
              \<and> match_index db' (ms ! i)
                   = Some (on_initiate_match db (first_round_players paired i) m)"
    if "i \<in> set idxs" for i
  proof -
    from that fresh have ne: "ms ! i \<noteq> ms ! a" by (metis imageI)
    from ih1 that obtain m' where "match_index ?db1 (ms ! i) = Some m'"
      "match_index db' (ms ! i) = Some (on_initiate_match ?db1 (first_round_players paired i) m')"
      by blast
    with ne show ?thesis by (simp add: on_initiate_match_db[of ?db1 _ _ db])
  qed
  have untouched: "match_index db' k = match_index db k"
    if "k \<notin> (\<lambda>i. ms ! i) ` set (a # idxs)" for k
    using that ih2 by auto
  from m first others untouched ih3 show ?case by auto
qed

section \<open>The bracket of three players\<close>

lemma rounds_for_3: "rounds_for 3 = 2"
  by (simp add: rounds_for_def msb_index.simps)

lemma paired_index_3:
  "paired_index 2 0 = 0" "paired_index 2 (Suc 0) = 2" "paired_index 2 2 = 3"
  by code_simp+


lemma pair_players_3: "pair_players 3 [X, Y, Z] = Inr [X, null_account, Y, Z]"
proof -
  have "pair_players 3 [X, Y, Z]
      = Inr (fold (\<lambda>p acc. acc[paired_index (rounds_for 3) p := [X, Y, Z] ! p])
                    [0 ..< unat (3 :: 32 word)] (replicate (2 ^ rounds_for 3) null_account))"
    by (rule pair_players_eq) simp_all
  moreover have "[0 ..< unat (3 :: 32 word)] = [0, 1, 2]" by (simp add: upt_rec)
  moreover have "replicate (2 ^ rounds_for 3) null_account
      = [null_account, null_account, null_account, null_account]"
    by (simp add: rounds_for_3 numeral_eq_Suc)
  moreover have "[null_account, null_account, null_account, null_account][0 := X, 2 := Y, 3 := Z]
      = [X, null_account, Y, Z]"
    by (simp add: numeral_2_eq_2 numeral_3_eq_3)
  ultimately show ?thesis
    by (simp add: rounds_for_3 paired_index_3)
qed

lemma bracket_sizes_3: "bracket_sizes 3 = Inr (2, 3, 2)"
  by (simp add: bracket_sizes_def find_msb_def msb_index.simps)

lemma start_tournament_3:
  assumes N: "number_of_players (options t) = 3" and Z: "Z \<noteq> null_account"
  shows "\<exists>db'. start_tournament db t details [X, Y, Z] = Inr db'
          \<and> tournament_details_index db' (tournament_details_id t)
              = Some (details\<lparr>matches :=
                   [next_match_id db, next_match_id db + 1, next_match_id db + 2]\<rparr>)
          \<and> match_index db' (next_match_id db)
              = Some ((empty_match db (object_id t))
                   \<lparr>players := [X], match_winners := [X], match_state := match_complete\<rparr>)
          \<and> match_index db' (next_match_id db + 1)
              = Some ((empty_match db (object_id t))
                   \<lparr>players := [Y, Z], match_state := match_in_progress\<rparr>)
          \<and> match_index db' (next_match_id db + 2) = Some (empty_match db (object_id t))"
proof -
  define e where "e = empty_match db (object_id t)"
  define n where "n = next_match_id db"
  define db1 where "db1 = db\<lparr>match_index := (match_index db)(n \<mapsto> e, Suc n \<mapsto> e, Suc (Suc n) \<mapsto> e),
                    next_match_id := Suc (Suc (Suc n))\<rparr>"
  define db2 where "db2 = db1\<lparr>match_index := (match_index db1)
       (n \<mapsto> e\<lparr>players := [X], match_winners := [X], match_state := match_complete\<rparr>,
        Suc n \<mapsto> e\<lparr>players := [Y, Z], match_state := match_in_progress\<rparr>)\<rparr>"
  have c: "create_empty_matches (object_id t) 3 ([], db) = ([n, Suc n, Suc (Suc n)], db1)"
    by (simp add: numeral_3_eq_3 create_match_def Let_def e_def n_def db1_def empty_match_def)
  have i: "initiate_first_round [n, Suc n, Suc (Suc n)] [X, null_account, Y, Z]
             [0 ..< 2] db1 = Inr db2"
    using Z by (simp add: upt_rec first_round_players_def on_initiate_match_def db1_def db2_def)
  have s: "start_tournament db t details [X, Y, Z]
      = Inr (db2\<lparr>tournament_details_index :=
               (tournament_details_index db2)(tournament_details_id t \<mapsto>
                  details\<lparr>matches := [n, Suc n, Suc (Suc n)]\<rparr>)\<rparr>)"
    by (simp add: start_tournament_def N bracket_sizes_3 pair_players_3 c i)
  show ?thesis
    unfolding s by (simp add: db2_def db1_def n_def e_def)
qed


text \<open>
  Claim C4, as the code has it. For \<open>N = 3\<close> and seeded players \<open>[X, Y, Z]\<close> the
  pairing array has length 4 and holds \<open>X\<close> at position 0, \<open>Y\<close> at position 2 and
  \<open>Z\<close> at position 3; position 1 is the bye. The first-round matches are \<open>X\<close> against
  a bye and \<open>Y\<close> against \<open>Z\<close> (a real player, so not the null id). After the start
  the first match is complete with \<open>X\<close> as its winner, the second is in progress with
  \<open>Y\<close> and \<open>Z\<close>, and the third, the final, is still empty.
\<close>

theorem three_player_bracket:
  assumes "number_of_players (options t) = 3" and "Z \<noteq> null_account"
  shows "pair_players 3 [X, Y, Z] = Inr [X, null_account, Y, Z]
    \<and> first_round_players [X, null_account, Y, Z] 0 = [X]
    \<and> first_round_players [X, null_account, Y, Z] 1 = [Y, Z]
    \<and> (\<exists>db'. start_tournament db t details [X, Y, Z] = Inr db'
          \<and> tournament_details_index db' (tournament_details_id t)
              = Some (details\<lparr>matches :=
                   [next_match_id db, next_match_id db + 1, next_match_id db + 2]\<rparr>)
          \<and> match_index db' (next_match_id db)
              = Some ((empty_match db (object_id t))
                   \<lparr>players := [X], match_winners := [X], match_state := match_complete\<rparr>)
          \<and> match_index db' (next_match_id db + 1)
              = Some ((empty_match db (object_id t))
                   \<lparr>players := [Y, Z], match_state := match_in_progress\<rparr>)
          \<and> match_index db' (next_match_id db + 2) = Some (empty_match db (object_id t)))"
proof (intro conjI)
  show "pair_players 3 [X, Y, Z] = Inr [X, null_account, Y, Z]" by (rule pair_players_3)
  show "first_round_players [X, null_account, Y, Z] 0 = [X]"
    by (simp add: first_round_players_def)
  show "first_round_players [X, null_account, Y, Z] 1 = [Y, Z]"
    using assms(2) by (simp add: first_round_players_def)
  show "\<exists>db'. start_tournament db t details [X, Y, Z] = Inr db'
          \<and> tournament_details_index db' (tournament_details_id t)
              = Some (details\<lparr>matches :=
                   [next_match_id db, next_match_id db + 1, next_match_id db + 2]\<rparr>)
          \<and> match_index db' (next_match_id db)
              = Some ((empty_match db (object_id t))
                   \<lparr>players := [X], match_winners := [X], match_state := match_complete\<rparr>)
          \<and> match_index db' (next_match_id db + 1)
              = Some ((empty_match db (object_id t))
                   \<lparr>players := [Y, Z], match_state := match_in_progress\<rparr>)
          \<and> match_index db' (next_match_id db + 2) = Some (empty_match db (object_id t))"
    using assms by (rule start_tournament_3)
qed

theorem three_player_bracket_witness:
  "number_of_players (options (example_tournament 3 3 30 awaiting_start)) = 3
   \<and> (3 :: account_id_type) \<noteq> null_account
   \<and> pair_players 3 [1, 2, 3] = Inr [1, null_account, 2, 3]
   \<and> (case start_tournament (registration_db [(1, 10), (2, 10), (3, 10)])
               (example_tournament 3 3 30 awaiting_start) three_players_details [1, 2, 3] of
         Inl e \<Rightarrow> False
       | Inr db' \<Rightarrow>
           map_option matches (tournament_details_index db' 0) = Some [0, 1, 2]
           \<and> map (\<lambda>i. map_option players (match_index db' i)) [0, 1, 2]
               = [Some [1], Some [2, 3], Some []]
           \<and> map (\<lambda>i. map_option match_winners (match_index db' i)) [0, 1, 2]
               = [Some [1], Some [], Some []]
           \<and> map (\<lambda>i. map_option match_state (match_index db' i)) [0, 1, 2]
               = [Some match_complete, Some match_in_progress,
                  Some waiting_on_previous_matches])"
proof -
  let ?t = "example_tournament 3 3 30 awaiting_start"
  let ?db = "registration_db [(1, 10), (2, 10), (3, 10)]"
  have n: "number_of_players (options ?t) = 3"
    by (simp add: example_tournament_def example_options_def)
  have z: "(3 :: account_id_type) \<noteq> null_account" by (simp add: null_account_def)
  have ids: "next_match_id (registration_db ps) = 0"
    "tournament_details_id (example_tournament k r p st) = 0" for ps k r p st
    by (simp_all add: registration_db_def example_tournament_def)
  from three_player_bracket[OF n z, of 1 2 ?db three_players_details]
  obtain db' where pp: "pair_players 3 [1, 2, 3] = Inr [1, null_account, 2, 3]"
    and st: "start_tournament ?db ?t three_players_details [1, 2, 3] = Inr db'"
    and d: "tournament_details_index db' (tournament_details_id ?t)
              = Some (three_players_details\<lparr>matches :=
                   [next_match_id ?db, next_match_id ?db + 1, next_match_id ?db + 2]\<rparr>)"
    and m0: "match_index db' (next_match_id ?db)
              = Some ((empty_match ?db (object_id ?t))
                   \<lparr>players := [1], match_winners := [1], match_state := match_complete\<rparr>)"
    and m1: "match_index db' (next_match_id ?db + 1)
              = Some ((empty_match ?db (object_id ?t))
                   \<lparr>players := [2, 3], match_state := match_in_progress\<rparr>)"
    and m2: "match_index db' (next_match_id ?db + 2) = Some (empty_match ?db (object_id ?t))"
    by blast
  from d have d': "map_option matches (tournament_details_index db' 0) = Some [0, 1, 2]"
    by (simp add: ids)
  from m0 have m0': "match_index db' 0 = Some ((empty_match ?db (object_id ?t))
                   \<lparr>players := [1], match_winners := [1], match_state := match_complete\<rparr>)"
    by (simp add: ids)
  from m1 have m1': "match_index db' (Suc 0) = Some ((empty_match ?db (object_id ?t))
                   \<lparr>players := [2, 3], match_state := match_in_progress\<rparr>)"
    by (simp add: ids)
  from m2 have m2': "match_index db' 2 = Some (empty_match ?db (object_id ?t))"
    by (simp add: ids numeral_2_eq_2)
  have "map (\<lambda>i. map_option players (match_index db' i)) [0, 1, 2]
               = [Some [1], Some [2, 3], Some []]"
    and "map (\<lambda>i. map_option match_winners (match_index db' i)) [0, 1, 2]
               = [Some [1], Some [], Some []]"
    and "map (\<lambda>i. map_option match_state (match_index db' i)) [0, 1, 2]
               = [Some match_complete, Some match_in_progress,
                  Some waiting_on_previous_matches]"
    by (simp_all add: m0' m1' m2' empty_match_def)
  with n z pp st d' show ?thesis by simp
qed

text \<open>
  With seeded players \<open>[1, 2, 3]\<close> the third player is at position 3 and not at
  position 1, and the matches are 1 against a bye and 2 against 3.
\<close>

theorem three_player_positions_counterexample:
  "pair_players 3 [1, 2, 3] = Inr [1, 0, 2, 3]
   \<and> pair_players 3 [1, 2, 3] \<noteq> Inr [1, 3, 2, 0]
   \<and> first_round_players [1, 0, 2, 3] 0 = [1]
   \<and> first_round_players [1, 0, 2, 3] 1 = [2, 3]"
  by (simp add: pair_players_3 null_account_def first_round_players_def)

section \<open>Layout of the match array\<close>

lemma msb_index_power: "msb_index (2 ^ r) = r"
proof (induction r)
  case 0
  then show ?case by (simp add: msb_index.simps)
next
  case (Suc r)
  have "msb_index (2 ^ Suc r) = Suc (msb_index (2 ^ Suc r div 2))"
    by (subst msb_index.simps) simp
  with Suc show ?case by simp
qed

lemma word_of_nat_matches:
  assumes "r < 32"
  shows "(word_of_nat (2 ^ r - 1) :: 32 word) = push_bit r 1 - 1"
proof -
  have "unat (push_bit r (1 :: 32 word) - 1) = 2 ^ r - 1"
    using assms by (rule unat_push_bit_one_minus)
  then have "word_of_nat (2 ^ r - 1) = (word_of_nat (unat (push_bit r (1 :: 32 word) - 1)) :: 32 word)"
    by simp
  then show ?thesis by (simp only: of_nat_unat) simp
qed

lemma scheduler_addressing:
  assumes r: "0 < r" "r < 32"
  shows "find_msb (word_of_nat (2 ^ r - 1) + 1) = Inr r
    \<and> unat (first_match_in_round (word_of_nat (2 ^ r - 1)) 0) = 0
    \<and> unat (num_matches_in_round r 0) = 2 ^ (r - 1)
    \<and> unat (first_match_in_round (word_of_nat (2 ^ r - 1)) (r - 1)) = 2 ^ r - 2
    \<and> unat (num_matches_in_round r (r - 1)) = 1"
proof -
  define nm where "nm = (word_of_nat (2 ^ r - 1) :: 32 word)"
  have nm: "nm = push_bit r 1 - 1" unfolding nm_def using r(2) by (rule word_of_nat_matches)
  have unm: "unat nm = 2 ^ r - 1" unfolding nm using r(2) by (rule unat_push_bit_one_minus)
  have "nm + 1 = 2 ^ r" by (simp add: nm)
  moreover have u2: "unat ((2 :: 32 word) ^ r) = 2 ^ r" using r(2) by (rule unat_two_power)
  moreover from u2 have "(2 :: 32 word) ^ r \<noteq> 0" by (metis power_not_zero unat_0 zero_neq_numeral)
  ultimately have a: "find_msb (nm + 1) = Inr r"
    by (simp add: find_msb_def msb_index_power)
  have b: "unat (first_match_in_round nm 0) = 0" by (simp add: first_match_in_round_def)
  have c: "unat (num_matches_in_round r 0) = 2 ^ (r - 1)"
  proof -
    have "r - 1 < 32" using r(2) by simp
    then have "unat (push_bit (r - 1) (1 :: 32 word)) = 2 ^ (r - 1)" by (rule unat_push_bit_one)
    then show ?thesis by (simp only: num_matches_in_round_def diff_zero)
  qed
  from r obtain r' where r': "r = Suc r'" by (cases r) auto
  have "((2::nat) ^ r - 1) div 2 ^ (r - 1) = 1"
  proof -
    have "(2::nat) ^ r - 1 = 1 * 2 ^ r' + (2 ^ r' - 1)" by (simp add: r')
    moreover have "(2::nat) ^ r' - 1 < 2 ^ r'" by simp
    ultimately have "((2::nat) ^ r - 1) div 2 ^ r' = 1"
      by (metis div_mult_self3 div_less add.commute add_0 power_not_zero zero_neq_numeral)
    then show ?thesis by (simp add: r')
  qed
  then have "unat (drop_bit (r - 1) nm) = 1"
    by (metis drop_bit_eq_div unat_drop_bit_eq unm)
  then have one: "drop_bit (r - 1) nm = 1" by (metis unat_1 word_unat_eq_iff)
  have big: "(1::nat) < 2 ^ r" using r(1) by (intro one_less_power) simp_all
  have "nm \<noteq> 0"
  proof
    assume "nm = 0"
    then have "unat nm = 0" by simp
    then have "(2::nat) ^ r - 1 = 0" by (simp only: unm)
    with big show False by arith
  qed
  then have "unat (nm - 1) = unat nm - 1" by (rule unat_minus_one)
  moreover have "first_match_in_round nm (r - 1) = nm - 1"
    by (simp only: first_match_in_round_def one)
  ultimately have "unat (first_match_in_round nm (r - 1)) = 2 ^ r - 1 - 1"
    by (simp only: unm)
  then have d: "unat (first_match_in_round nm (r - 1)) = 2 ^ r - 2" by simp
  have e: "unat (num_matches_in_round r (r - 1)) = 1"
    by (simp add: num_matches_in_round_def)
  from a b c d e show ?thesis unfolding nm_def by blast
qed

lemma start_tournament_layout:
  assumes st: "start_tournament db t details seeded = Inr db'"
  shows "\<exists>paired ms.
        pair_players (number_of_players (options t)) seeded = Inr paired
      \<and> 2 \<le> unat (number_of_players (options t))
      \<and> unat (number_of_players (options t)) \<le> 2 ^ 31
      \<and> tournament_details_index db' (tournament_details_id t) = Some (details\<lparr>matches := ms\<rparr>)
      \<and> length ms = 2 ^ rounds_for (number_of_players (options t)) - 1
      \<and> (\<forall>i<2 ^ (rounds_for (number_of_players (options t)) - 1).
            \<exists>m. match_index db' (ms ! i) = Some m \<and> players m = first_round_players paired i)
      \<and> (\<forall>i. 2 ^ (rounds_for (number_of_players (options t)) - 1) \<le> i
               \<and> i < 2 ^ rounds_for (number_of_players (options t)) - 1
            \<longrightarrow> match_index db' (ms ! i) = Some (empty_match db (object_id t)))"
proof -
  let ?N = "number_of_players (options t)"
  let ?r = "rounds_for ?N"
  from st obtain r nm nf where bs: "bracket_sizes ?N = Inr (r, nm, nf)"
    by (auto simp: start_tournament_def split: sum.splits)
  from bracket_sizes_InrD[OF bs] have N: "2 \<le> unat ?N" "unat ?N \<le> 2 ^ 31"
    and r: "r = ?r" and nm: "nm = push_bit ?r 1 - 1" and nf: "nf = push_bit (?r - 1) 1"
    by simp_all
  have r0: "0 < ?r" by (simp add: rounds_for_def)
  have r32: "?r < 32" by (rule rounds_for_less_32[OF N])
  have unm: "unat nm = 2 ^ ?r - 1" unfolding nm using r32 by (rule unat_push_bit_one_minus)
  have "?r - 1 < 32" using r32 by simp
  then have unf: "unat nf = 2 ^ (?r - 1)" unfolding nf by (rule unat_push_bit_one)
  from st bs obtain paired where pp: "pair_players ?N seeded = Inr paired"
    by (auto simp: start_tournament_def split: sum.splits)
  obtain ms db1 where ce: "create_empty_matches (object_id t) (unat nm) ([], db) = (ms, db1)"
    by (cases "create_empty_matches (object_id t) (unat nm) ([], db)")
  from st bs pp ce obtain db2 where
    ini: "initiate_first_round ms paired [0 ..< unat nf] db1 = Inr db2"
    and db': "db' = db2\<lparr>tournament_details_index :=
                 (tournament_details_index db2)(tournament_details_id t \<mapsto>
                    details\<lparr>matches := ms\<rparr>)\<rparr>"
    by (auto simp: start_tournament_def split: sum.splits)
  let ?n0 = "next_match_id db"
  from create_empty_matches_result[OF ce]
  have ms: "ms = [?n0 ..< ?n0 + (2 ^ ?r - 1)]"
    and idx1: "\<forall>i. match_index db1 i =
               (if ?n0 \<le> i \<and> i < ?n0 + (2 ^ ?r - 1)
                then Some (empty_match db (object_id t)) else match_index db i)"
    by (simp_all add: unm)
  have len: "length ms = 2 ^ ?r - 1" by (simp add: ms)
  have nth: "ms ! i = ?n0 + i" if "i < 2 ^ ?r - 1" for i using that by (simp add: ms)
  have pow: "(2::nat) ^ ?r = 2 * 2 ^ (?r - 1)" using r0 by (cases ?r) simp_all
  have half: "(2::nat) ^ (?r - 1) \<le> 2 ^ ?r - 1" using pow by simp
  have inj: "inj_on (\<lambda>i. ms ! i) (set [0 ..< unat nf])"
  proof (rule inj_onI)
    fix i j assume "i \<in> set [0 ..< unat nf]" "j \<in> set [0 ..< unat nf]" "ms ! i = ms ! j"
    with unf half have "i < 2 ^ ?r - 1" "j < 2 ^ ?r - 1" "ms ! i = ms ! j" by simp_all
    then show "i = j" by (simp add: nth)
  qed
  from initiate_first_round_result[OF ini _ inj]
  have first: "\<forall>i\<in>set [0 ..< unat nf]. \<exists>m. match_index db1 (ms ! i) = Some m
              \<and> match_index db2 (ms ! i)
                   = Some (on_initiate_match db1 (first_round_players paired i) m)"
    and rest: "\<forall>k. k \<notin> (\<lambda>i. ms ! i) ` set [0 ..< unat nf]
                 \<longrightarrow> match_index db2 k = match_index db1 k"
    by simp_all
  have mi: "match_index db' = match_index db2" by (simp add: db')
  have a: "\<exists>m. match_index db' (ms ! i) = Some m \<and> players m = first_round_players paired i"
    if "i < 2 ^ (?r - 1)" for i
  proof -
    from that unf have "i \<in> set [0 ..< unat nf]" by simp
    with first obtain m where "match_index db2 (ms ! i)
                   = Some (on_initiate_match db1 (first_round_players paired i) m)" by blast
    then show ?thesis by (simp add: mi)
  qed
  have b: "match_index db' (ms ! i) = Some (empty_match db (object_id t))"
    if "2 ^ (?r - 1) \<le> i \<and> i < 2 ^ ?r - 1" for i
  proof -
    from that have i: "2 ^ (?r - 1) \<le> i" "i < 2 ^ ?r - 1" by simp_all
    have "ms ! i \<notin> (\<lambda>i. ms ! i) ` set [0 ..< unat nf]"
    proof
      assume "ms ! i \<in> (\<lambda>i. ms ! i) ` set [0 ..< unat nf]"
      then obtain j where j: "j < 2 ^ (?r - 1)" "ms ! i = ms ! j" using unf by auto
      with half have "j < 2 ^ ?r - 1" by simp
      with j i show False by (simp add: nth)
    qed
    with rest have "match_index db2 (ms ! i) = match_index db1 (ms ! i)" by blast
    also have "\<dots> = match_index db1 (?n0 + i)" using i by (simp only: nth)
    also have "\<dots> = Some (empty_match db (object_id t))"
    proof -
      from idx1 have "match_index db1 (?n0 + i) =
               (if ?n0 \<le> ?n0 + i \<and> ?n0 + i < ?n0 + (2 ^ ?r - 1)
                then Some (empty_match db (object_id t)) else match_index db (?n0 + i))"
        by blast
      moreover have "?n0 \<le> ?n0 + i \<and> ?n0 + i < ?n0 + (2 ^ ?r - 1)" using i by simp
      ultimately show ?thesis by (simp only: if_True simp_thms)
    qed
    finally show ?thesis by (simp add: mi)
  qed
  have d: "tournament_details_index db' (tournament_details_id t) = Some (details\<lparr>matches := ms\<rparr>)"
    by (simp add: db')
  from pp N d len a b show ?thesis by blast
qed

lemma start_tournament_two_rounds:
  assumes bs: "bracket_sizes (number_of_players (options t)) = Inr (2, 3, 2)"
    and pp: "pair_players (number_of_players (options t)) seeded = Inr [a, b, c, d]"
  shows "\<exists>db'. start_tournament db t details seeded = Inr db'
          \<and> tournament_details_index db' (tournament_details_id t)
              = Some (details\<lparr>matches :=
                   [next_match_id db, Suc (next_match_id db), Suc (Suc (next_match_id db))]\<rparr>)
          \<and> match_index db' (next_match_id db)
              = Some (on_initiate_match db (first_round_players [a, b, c, d] 0)
                        (empty_match db (object_id t)))
          \<and> match_index db' (Suc (next_match_id db))
              = Some (on_initiate_match db (first_round_players [a, b, c, d] 1)
                        (empty_match db (object_id t)))
          \<and> match_index db' (Suc (Suc (next_match_id db))) = Some (empty_match db (object_id t))"
proof -
  define e where "e = empty_match db (object_id t)"
  define n where "n = next_match_id db"
  define db1 where "db1 = db\<lparr>match_index := (match_index db)(n \<mapsto> e, Suc n \<mapsto> e, Suc (Suc n) \<mapsto> e),
                    next_match_id := Suc (Suc (Suc n))\<rparr>"
  define db2 where "db2 = db1\<lparr>match_index := (match_index db1)
       (n \<mapsto> on_initiate_match db (first_round_players [a, b, c, d] 0) e,
        Suc n \<mapsto> on_initiate_match db (first_round_players [a, b, c, d] 1) e)\<rparr>"
  have c: "create_empty_matches (object_id t) 3 ([], db) = ([n, Suc n, Suc (Suc n)], db1)"
    by (simp add: numeral_3_eq_3 create_match_def Let_def e_def n_def db1_def empty_match_def)
  have i: "initiate_first_round [n, Suc n, Suc (Suc n)] [a, b, c, d] [0 ..< 2] db1 = Inr db2"
    by (simp add: upt_rec db1_def db2_def on_initiate_match_def)
  have s: "start_tournament db t details seeded
      = Inr (db2\<lparr>tournament_details_index :=
               (tournament_details_index db2)(tournament_details_id t \<mapsto>
                  details\<lparr>matches := [n, Suc n, Suc (Suc n)]\<rparr>)\<rparr>)"
    by (simp add: start_tournament_def bs pp c i)
  show ?thesis
    unfolding s by (simp add: db2_def db1_def n_def e_def)
qed

lemma shuffle_four: "shuffle_players example_rng 0 [11, 12, 13, 14] = Inr [12, 13, 14, 11]"
  by (simp add: shuffle_players_def example_rng_def numeral_3_eq_3)

lemma pair_players_four: "pair_players 4 [12, 13, 14, 11] = Inr [12, 11, 13, 14]"
  by code_simp

lemma bracket_sizes_four: "bracket_sizes 4 = Inr (2, 3, 2)"
  by (simp add: bracket_sizes_def find_msb_def msb_index.simps)

lemma four_player_start:
  "\<exists>db' t'. process_event example_rng start_time_arrived
           (registration_db [(11, 10), (12, 10), (13, 10), (14, 10)],
            example_tournament 4 4 40 awaiting_start) = Inr (db', t')
        \<and> state t' = in_progress
        \<and> map_option matches (tournament_details_index db' 0) = Some [0, 1, 2]
        \<and> map (\<lambda>i. map_option players (match_index db' i)) [0, 1, 2]
            = [Some [12, 11], Some [13, 14], Some []]
        \<and> map (\<lambda>i. map_option match_state (match_index db' i)) [0, 1, 2]
            = [Some match_in_progress, Some match_in_progress,
               Some waiting_on_previous_matches]"
proof -
  let ?t = "example_tournament 4 4 40 awaiting_start"
  let ?db = "registration_db [(11, 10), (12, 10), (13, 10), (14, 10)]"
  let ?d = "\<lparr>details_registered_players = [11, 12, 13, 14],
            payers = [(11, 10), (12, 10), (13, 10), (14, 10 :: int)], matches = []\<rparr>"
  have N: "number_of_players (options ?t) = 4"
    by (simp add: example_tournament_def example_options_def)
  have ids: "next_match_id (registration_db ps) = 0"
    "random (registration_db ps) = 0"
    "tournament_details_id (example_tournament k r p st) = 0"
    "state (example_tournament k r p st) = st" for ps k r p st
    by (simp_all add: registration_db_def example_tournament_def)
  have d: "tournament_details_index ?db 0 = Some ?d" by (simp add: registration_db_def)
  have bs: "bracket_sizes (number_of_players (options ?t)) = Inr (2, 3, 2)"
    by (simp only: N bracket_sizes_four)
  have pp: "pair_players (number_of_players (options ?t)) [12, 13, 14, 11]
              = Inr [12, 11, 13, 14]"
    by (simp only: N pair_players_four)
  from start_tournament_two_rounds[OF bs pp, of ?db ?d]
  obtain db' where st: "start_tournament ?db ?t ?d [12, 13, 14, 11] = Inr db'"
    and det0: "tournament_details_index db' (tournament_details_id ?t)
              = Some (?d\<lparr>matches :=
                   [next_match_id ?db, Suc (next_match_id ?db), Suc (Suc (next_match_id ?db))]\<rparr>)"
    and m00: "match_index db' (next_match_id ?db)
              = Some (on_initiate_match ?db (first_round_players [12, 11, 13, 14] 0)
                        (empty_match ?db (object_id ?t)))"
    and m10: "match_index db' (Suc (next_match_id ?db))
              = Some (on_initiate_match ?db (first_round_players [12, 11, 13, 14] 1)
                        (empty_match ?db (object_id ?t)))"
    and m20: "match_index db' (Suc (Suc (next_match_id ?db)))
              = Some (empty_match ?db (object_id ?t))"
    by blast
  from det0 have det: "tournament_details_index db' 0
      = Some (?d\<lparr>matches := [0, Suc 0, Suc (Suc 0)]\<rparr>)"
    by (simp only: ids)
  from m00 have m0: "match_index db' 0
              = Some (on_initiate_match ?db (first_round_players [12, 11, 13, 14] 0)
                        (empty_match ?db (object_id ?t)))"
    by (simp only: ids)
  from m10 have m1: "match_index db' (Suc 0)
              = Some (on_initiate_match ?db (first_round_players [12, 11, 13, 14] 1)
                        (empty_match ?db (object_id ?t)))"
    by (simp only: ids)
  from m20 have m2: "match_index db' (Suc (Suc 0)) = Some (empty_match ?db (object_id ?t))"
    by (simp only: ids)
  have step: "process_event example_rng start_time_arrived (?db, ?t)
      = Inr (db', ?t\<lparr>state := in_progress\<rparr>)"
    by (simp add: ids in_progress_on_entry_def d shuffle_four st)
  have f1: "first_round_players [12, 11, 13, 14] 0 = [12, 11]"
    and f2: "first_round_players [12, 11, 13, 14] 1 = [13, 14]"
    by code_simp+
  from f2 have f2': "first_round_players [12, 11, 13, 14] (Suc 0) = [13, 14]" by simp
  have "map_option matches (tournament_details_index db' 0) = Some [0, 1, 2]"
    by (simp add: det numeral_2_eq_2)
  moreover have "map (\<lambda>i. map_option players (match_index db' i)) [0, 1, 2]
            = [Some [12, 11], Some [13, 14], Some []]"
    by (simp add: m0 m1 m2 f1 f2 f2' empty_match_def numeral_2_eq_2)
  moreover have "map (\<lambda>i. map_option match_state (match_index db' i)) [0, 1, 2]
            = [Some match_in_progress, Some match_in_progress,
               Some waiting_on_previous_matches]"
    by (simp add: m0 m1 m2 f1 f2 f2' empty_match_def on_initiate_match_def numeral_2_eq_2)
  ultimately show ?thesis using step by simp
qed

text \<open>
  Claim C2, as the code has it. When \<^verbatim>\<open>start_time_arrived\<close> takes a tournament from
  \<^verbatim>\<open>awaiting_start\<close> to \<^verbatim>\<open>in_progress\<close>, the details hold \<open>2^R - 1\<close> matches with
  \<open>2^(R-1) < N \<le> 2^R\<close>. The first-round pairings of the bracket builder are in the
  matches at the lowest indices \<open>[0, 2^(R-1))\<close> and the matches at the higher indices are
  empty. The scheduler numbers the rounds accordingly: on this array it finds \<open>R\<close>
  rounds, round 0 starts at index 0 and has \<open>2^(R-1)\<close> matches, and the last round is
  the single match at the last index.
\<close>

theorem first_round_occupies_lowest_indices:
  assumes "state t = awaiting_start"
    and "process_event rng start_time_arrived (db, t) = Inr (db', t')"
  shows "\<exists>details seeded paired ms.
        t' = t\<lparr>state := in_progress\<rparr>
      \<and> tournament_details_index db (tournament_details_id t) = Some details
      \<and> shuffle_players rng (random db) (details_registered_players details) = Inr seeded
      \<and> pair_players (number_of_players (options t)) seeded = Inr paired
      \<and> tournament_details_index db' (tournament_details_id t) = Some (details\<lparr>matches := ms\<rparr>)
      \<and> length ms = 2 ^ rounds_for (number_of_players (options t)) - 1
      \<and> 2 ^ (rounds_for (number_of_players (options t)) - 1)
           < unat (number_of_players (options t))
      \<and> unat (number_of_players (options t))
           \<le> 2 ^ rounds_for (number_of_players (options t))
      \<and> (\<forall>i<2 ^ (rounds_for (number_of_players (options t)) - 1).
            \<exists>m. match_index db' (ms ! i) = Some m \<and> players m = first_round_players paired i)
      \<and> (\<forall>i. 2 ^ (rounds_for (number_of_players (options t)) - 1) \<le> i
               \<and> i < 2 ^ rounds_for (number_of_players (options t)) - 1
            \<longrightarrow> match_index db' (ms ! i) = Some (empty_match db (object_id t)))
      \<and> find_msb (word_of_nat (length ms) + 1)
           = Inr (rounds_for (number_of_players (options t)))
      \<and> unat (first_match_in_round (word_of_nat (length ms)) 0) = 0
      \<and> unat (num_matches_in_round (rounds_for (number_of_players (options t))) 0)
           = 2 ^ (rounds_for (number_of_players (options t)) - 1)
      \<and> unat (first_match_in_round (word_of_nat (length ms))
                 (rounds_for (number_of_players (options t)) - 1)) = length ms - 1
      \<and> unat (num_matches_in_round (rounds_for (number_of_players (options t)))
                 (rounds_for (number_of_players (options t)) - 1)) = 1"
proof -
  let ?N = "number_of_players (options t)"
  let ?r = "rounds_for ?N"
  from assms obtain t': "t' = t\<lparr>state := in_progress\<rparr>"
    and entry: "in_progress_on_entry rng db t = Inr db'"
    by (auto split: sum.splits)
  from entry obtain details seeded where
    d: "tournament_details_index db (tournament_details_id t) = Some details"
    and sh: "shuffle_players rng (random db) (details_registered_players details) = Inr seeded"
    and st: "start_tournament db t details seeded = Inr db'"
    by (auto simp: in_progress_on_entry_def split: option.splits sum.splits)
  from start_tournament_layout[OF st] obtain paired ms where
    pp: "pair_players ?N seeded = Inr paired"
    and N: "2 \<le> unat ?N" "unat ?N \<le> 2 ^ 31"
    and d': "tournament_details_index db' (tournament_details_id t) = Some (details\<lparr>matches := ms\<rparr>)"
    and len: "length ms = 2 ^ ?r - 1"
    and first: "\<forall>i<2 ^ (?r - 1).
            \<exists>m. match_index db' (ms ! i) = Some m \<and> players m = first_round_players paired i"
    and rest: "\<forall>i. 2 ^ (?r - 1) \<le> i \<and> i < 2 ^ ?r - 1
            \<longrightarrow> match_index db' (ms ! i) = Some (empty_match db (object_id t))"
    by blast
  have r0: "0 < ?r" by (simp add: rounds_for_def)
  have r32: "?r < 32" by (rule rounds_for_less_32[OF N])
  from rounds_for_bounds[OF N(1)] have rb: "2 ^ (?r - 1) < unat ?N" "unat ?N \<le> 2 ^ ?r"
    by simp_all
  from scheduler_addressing[OF r0 r32]
  have sched: "find_msb (word_of_nat (length ms) + 1) = Inr ?r"
    "unat (first_match_in_round (word_of_nat (length ms)) 0) = 0"
    "unat (num_matches_in_round ?r 0) = 2 ^ (?r - 1)"
    "unat (first_match_in_round (word_of_nat (length ms)) (?r - 1)) = 2 ^ ?r - 2"
    "unat (num_matches_in_round ?r (?r - 1)) = 1"
    by (simp_all only: len)
  have last: "unat (first_match_in_round (word_of_nat (length ms)) (?r - 1)) = length ms - 1"
    using sched(4) by (simp add: len)
  from t' d sh pp d' len rb first rest sched(1,2,3,5) last show ?thesis by blast
qed

theorem first_round_occupies_lowest_indices_witness:
  "state (example_tournament 4 4 40 awaiting_start) = awaiting_start
   \<and> (\<exists>db' t'. process_event example_rng start_time_arrived
           (registration_db [(11, 10), (12, 10), (13, 10), (14, 10)],
            example_tournament 4 4 40 awaiting_start) = Inr (db', t')
        \<and> t' = example_tournament 4 4 40 in_progress
        \<and> map_option matches (tournament_details_index db' 0) = Some [0, 1, 2]
        \<and> map (\<lambda>i. map_option players (match_index db' i)) [0, 1, 2]
            = [Some [12, 11], Some [13, 14], Some []])"
proof -
  let ?t = "example_tournament 4 4 40 awaiting_start"
  let ?db = "registration_db [(11, 10), (12, 10), (13, 10), (14, 10)]"
  have s: "state ?t = awaiting_start" by (simp add: example_tournament_def)
  from four_player_start obtain db' t' where
    step: "process_event example_rng start_time_arrived (?db, ?t) = Inr (db', t')"
    and facts: "map_option matches (tournament_details_index db' 0) = Some [0, 1, 2]"
      "map (\<lambda>i. map_option players (match_index db' i)) [0, 1, 2]
            = [Some [12, 11], Some [13, 14], Some []]"
    by (elim exE conjE)
  from first_round_occupies_lowest_indices[OF s step]
  have "t' = ?t\<lparr>state := in_progress\<rparr>" by blast
  then have t': "t' = example_tournament 4 4 40 in_progress" by (simp add: example_tournament_def)
  show ?thesis
  proof (intro conjI exI[of _ db'] exI[of _ t'])
    show "state ?t = awaiting_start" by (rule s)
    show "process_event example_rng start_time_arrived (?db, ?t) = Inr (db', t')" by (rule step)
    show "t' = example_tournament 4 4 40 in_progress" by (rule t')
    show "map_option matches (tournament_details_index db' 0) = Some [0, 1, 2]"
      by (rule facts(1))
    show "map (\<lambda>i. map_option players (match_index db' i)) [0, 1, 2]
            = [Some [12, 11], Some [13, 14], Some []]" by (rule facts(2))
  qed
qed

text \<open>
  A four-player tournament after the start: the matches at indices 0 and 1 hold the two
  first-round pairings, and the match at the highest index 2 is the empty final.
\<close>

theorem first_round_at_highest_indices_counterexample:
  "\<exists>db' t'. process_event example_rng start_time_arrived
           (registration_db [(11, 10), (12, 10), (13, 10), (14, 10)],
            example_tournament 4 4 40 awaiting_start) = Inr (db', t')
        \<and> state t' = in_progress
        \<and> map_option matches (tournament_details_index db' 0) = Some [0, 1, 2]
        \<and> map (\<lambda>i. map_option players (match_index db' i)) [0, 1, 2]
            = [Some [12, 11], Some [13, 14], Some []]
        \<and> map (\<lambda>i. map_option match_state (match_index db' i)) [0, 1, 2]
            = [Some match_in_progress, Some match_in_progress,
               Some waiting_on_previous_matches]"
  by (rule four_player_start)

section \<open>The scan of the scheduler\<close>

lemma scan_round_True:
  "scan_round db ms idxs w = Inr (True, w') \<Longrightarrow>
     w' = w \<and> list_all (match_is_complete db ms) idxs"
  by (induction idxs) (auto simp: match_is_complete_def split: if_splits option.splits)

lemma scan_round_False:
  "scan_round db ms idxs w = Inr (False, w') \<Longrightarrow> \<not> list_all (match_is_complete db ms) idxs"
  by (induction idxs) (auto simp: match_is_complete_def split: if_splits option.splits)

lemma scan_round_complete:
  "list_all (match_is_complete db ms) idxs \<Longrightarrow> scan_round db ms idxs w = Inr (True, w)"
  by (induction idxs) (auto simp: match_is_complete_def split: if_splits option.splits)

lemma scan_rounds_upt:
  assumes "scan_rounds db ms nm nr [k ..< n] (int k - 1) w = Inr (L, w')"
  shows "int k - 1 \<le> L \<and> (k \<le> n \<longrightarrow> L < int n)
       \<and> (\<forall>r. k \<le> r \<and> int r \<le> L \<longrightarrow> round_complete db ms nm nr r)
       \<and> (k \<le> n \<and> L < int n - 1 \<longrightarrow> \<not> round_complete db ms nm nr (nat (L + 1)))"
  using assms
proof (induction "n - k" arbitrary: k w)
  case 0
  then show ?case by auto
next
  case (Suc d)
  then have kn: "k < n" and upt: "[k ..< n] = k # [Suc k ..< n]" and d: "d = n - Suc k"
    by (auto simp: upt_conv_Cons)
  let ?idxs = "[unat (first_match_in_round nm k) ..<
                 unat (first_match_in_round nm k + num_matches_in_round nr k)]"
  from Suc.prems obtain c w1 where sr: "scan_round db ms ?idxs w = Inr (c, w1)"
    by (auto simp: upt Let_def split: sum.splits)
  show ?case
  proof (cases c)
    case True
    with sr have rc: "round_complete db ms nm nr k"
      by (auto simp: round_complete_def dest: scan_round_True)
    from Suc.prems sr True
    have rest: "scan_rounds db ms nm nr [Suc k ..< n] (int (Suc k) - 1) w1 = Inr (L, w')"
      by (simp add: upt Let_def)
    from Suc.hyps(1)[OF d rest]
    have ih: "int (Suc k) - 1 \<le> L" "Suc k \<le> n \<longrightarrow> L < int n"
      "\<forall>r. Suc k \<le> r \<and> int r \<le> L \<longrightarrow> round_complete db ms nm nr r"
      "Suc k \<le> n \<and> L < int n - 1 \<longrightarrow> \<not> round_complete db ms nm nr (nat (L + 1))"
      by blast+
    have "round_complete db ms nm nr r" if "k \<le> r \<and> int r \<le> L" for r
    proof (cases "r = k")
      case True
      with rc show ?thesis by simp
    next
      case False
      with that have "Suc k \<le> r \<and> int r \<le> L" by simp
      with ih(3) show ?thesis by blast
    qed
    with ih kn show ?thesis by auto
  next
    case False
    with sr have nrc: "\<not> round_complete db ms nm nr k"
      by (auto simp: round_complete_def dest: scan_round_False)
    from Suc.prems sr False have L: "L = int k - 1" by (simp add: upt Let_def)
    with nrc kn show ?thesis by auto
  qed
qed

lemma scan_rounds_all_complete:
  assumes "\<forall>r. k \<le> r \<and> r < n \<longrightarrow> round_complete db ms nm nr r"
  shows "scan_rounds db ms nm nr [k ..< n] L0 w = Inr (if k < n then int n - 1 else L0, w)"
  using assms
proof (induction "n - k" arbitrary: k L0)
  case 0
  then show ?case by simp
next
  case (Suc d)
  then have kn: "k < n" and upt: "[k ..< n] = k # [Suc k ..< n]" and d: "d = n - Suc k"
    by (auto simp: upt_conv_Cons)
  from Suc.prems kn have "round_complete db ms nm nr k" by simp
  then have sr: "scan_round db ms [unat (first_match_in_round nm k) ..<
                 unat (first_match_in_round nm k + num_matches_in_round nr k)] w = Inr (True, w)"
    unfolding round_complete_def by (rule scan_round_complete)
  from Suc.prems have "\<forall>r. Suc k \<le> r \<and> r < n \<longrightarrow> round_complete db ms nm nr r" by simp
  from Suc.hyps(1)[OF d this, of "int k"] sr kn show ?case
    by (auto simp: upt Let_def)
qed

lemma find_msb_less_32: "find_msb x = Inr nr \<Longrightarrow> nr < 32"
proof -
  assume a: "find_msb x = Inr nr"
  then have x: "x \<noteq> 0" and nr: "nr = msb_index (unat x)"
    by (auto simp: find_msb_def split: if_splits)
  from x have "0 < unat x" by (simp add: unat_gt_0)
  from msb_index_bounds[OF this] have "2 ^ nr \<le> unat x" by (simp add: nr)
  also have "unat x < 2 ^ 32" using unsigned_less[of x] by simp
  finally have "(2::nat) ^ nr < 2 ^ 32" .
  then show ?thesis by (simp only: power_strict_increasing_iff)
qed

lemma last_round_compare:
  assumes "nr < 32" "0 \<le> L" "L < int nr"
  shows "(word_of_int L :: 32 word) = word_of_nat nr - 1 \<longleftrightarrow> L = int nr - 1"
proof -
  have M: "0 \<le> int nr - 1" "int nr - 1 < 2 ^ 32" "L < 2 ^ 32" using assms by simp_all
  have "(word_of_nat nr - 1 :: 32 word) = word_of_int (int nr - 1)" by simp
  then have "(word_of_int L :: 32 word) = word_of_nat nr - 1
      \<longleftrightarrow> take_bit 32 L = take_bit 32 (int nr - 1)"
    by (simp only: word_of_int_eq_iff) simp
  also have "take_bit 32 L = L" using assms(2) M(3) by (simp add: take_bit_int_eq_self)
  also have "take_bit 32 (int nr - 1) = int nr - 1" using M(1,2) by (simp add: take_bit_int_eq_self)
  finally show ?thesis .
qed


lemma check_for_new_matches_unfold:
  assumes d: "tournament_details_index db (tournament_details_id t) = Some details"
    and r: "find_msb (word_of_nat (length (matches details)) + 1) = Inr nr"
    and s: "scan_rounds db (matches details) (word_of_nat (length (matches details))) nr
              [0 ..< nr] (- 1) False = Inr (L, w)"
  shows "(L = - 1 \<longrightarrow> check_for_new_matches_to_start ndebug db t = Inr db)
       \<and> (L \<noteq> - 1 \<and> (word_of_int L :: 32 word) = word_of_nat nr - 1 \<longrightarrow>
            check_for_new_matches_to_start ndebug db t
              = (if ndebug then Inr db else Inl Assertion_failed))"
  using d r s by (simp add: check_for_new_matches_to_start_def Let_def)

text \<open>
  Claim C8. Let the scan of the scheduler yield \<open>L\<close>, which lies between \<open>-1\<close> and
  \<open>num_rounds - 1\<close>. \<open>L = -1\<close> holds exactly when no round is complete (there is no
  round, or round 0 is not complete), and then the call returns the database unchanged.
  \<open>L = num_rounds - 1\<close> holds only when every round, the final included, is complete,
  so not while the tournament is still in progress; if it occurs, the call either fails
  the assertion (assertions compiled in) or returns the database unchanged. In neither
  case is a match modified.
\<close>

theorem scheduler_returns_without_change:
  assumes d: "tournament_details_index db (tournament_details_id t) = Some details"
    and r: "find_msb (word_of_nat (length (matches details)) + 1) = Inr nr"
  shows "(\<forall>L w. scan_rounds db (matches details) (word_of_nat (length (matches details))) nr
                  [0 ..< nr] (- 1) False = Inr (L, w) \<longrightarrow>
            - 1 \<le> L \<and> L < int nr
          \<and> (L = - 1 \<longleftrightarrow>
               (nr = 0 \<or> \<not> round_complete db (matches details)
                                (word_of_nat (length (matches details))) nr 0))
          \<and> (L = - 1 \<longrightarrow> check_for_new_matches_to_start ndebug db t = Inr db)
          \<and> (L = int nr - 1 \<longrightarrow>
               (\<forall>k<nr. round_complete db (matches details)
                          (word_of_nat (length (matches details))) nr k))
          \<and> (L \<noteq> - 1 \<and> L = int nr - 1 \<longrightarrow>
               check_for_new_matches_to_start ndebug db t
                 = (if ndebug then Inr db else Inl Assertion_failed)))
    \<and> ((nr = 0 \<or> \<not> round_complete db (matches details)
                        (word_of_nat (length (matches details))) nr 0) \<longrightarrow>
          (\<forall>db'. check_for_new_matches_to_start ndebug db t = Inr db' \<longrightarrow> db' = db))
    \<and> ((\<forall>k<nr. round_complete db (matches details)
                   (word_of_nat (length (matches details))) nr k) \<longrightarrow>
          check_for_new_matches_to_start ndebug db t
            = (if nr = 0 \<or> ndebug then Inr db else Inl Assertion_failed))"
proof -
  let ?ms = "matches details"
  let ?nm = "word_of_nat (length ?ms) :: 32 word"
  let ?rc = "round_complete db ?ms ?nm nr"
  have nr32: "nr < 32" using r by (rule find_msb_less_32)
  have scan: "- 1 \<le> L \<and> L < int nr
          \<and> (L = - 1 \<longleftrightarrow> (nr = 0 \<or> \<not> ?rc 0))
          \<and> (L = - 1 \<longrightarrow> check_for_new_matches_to_start ndebug db t = Inr db)
          \<and> (L = int nr - 1 \<longrightarrow> (\<forall>k<nr. ?rc k))
          \<and> (L \<noteq> - 1 \<and> L = int nr - 1 \<longrightarrow>
               check_for_new_matches_to_start ndebug db t
                 = (if ndebug then Inr db else Inl Assertion_failed))"
    if s: "scan_rounds db ?ms ?nm nr [0 ..< nr] (- 1) False = Inr (L, w)" for L w
  proof -
    from s have "scan_rounds db ?ms ?nm nr [0 ..< nr] (int 0 - 1) False = Inr (L, w)" by simp
    from scan_rounds_upt[OF this]
    have lo: "- 1 \<le> L" and hi: "L < int nr"
      and compl: "\<forall>k. int k \<le> L \<longrightarrow> ?rc k"
      and incompl: "L < int nr - 1 \<longrightarrow> \<not> ?rc (nat (L + 1))"
      by simp_all
    have first: "L = - 1 \<longleftrightarrow> (nr = 0 \<or> \<not> ?rc 0)"
    proof
      assume L: "L = - 1"
      show "nr = 0 \<or> \<not> ?rc 0"
      proof (cases "nr = 0")
        case False
        with L have "L < int nr - 1" by simp
        with incompl L show ?thesis by simp
      qed simp
    next
      assume a: "nr = 0 \<or> \<not> ?rc 0"
      show "L = - 1"
      proof (rule ccontr)
        assume "L \<noteq> - 1"
        with lo have "0 \<le> L" by simp
        with compl have "?rc 0" by simp
        with a have "nr = 0" by simp
        with hi \<open>0 \<le> L\<close> show False by simp
      qed
    qed
    have all: "\<forall>k<nr. ?rc k" if "L = int nr - 1"
      using compl that by auto
    from check_for_new_matches_unfold[OF d r s, of ndebug]
    have c1: "L = - 1 \<longrightarrow> check_for_new_matches_to_start ndebug db t = Inr db"
      and c2: "L \<noteq> - 1 \<and> (word_of_int L :: 32 word) = word_of_nat nr - 1 \<longrightarrow>
            check_for_new_matches_to_start ndebug db t
              = (if ndebug then Inr db else Inl Assertion_failed)"
      by simp_all
    have c3: "check_for_new_matches_to_start ndebug db t
                 = (if ndebug then Inr db else Inl Assertion_failed)"
      if "L \<noteq> - 1 \<and> L = int nr - 1"
    proof -
      from that lo have "0 \<le> L" by simp
      from last_round_compare[OF nr32 this hi] that
      have "(word_of_int L :: 32 word) = word_of_nat nr - 1" by simp
      with c2 that show ?thesis by simp
    qed
    from lo hi first c1 all c3 show ?thesis by blast
  qed
  have none: "\<forall>db'. check_for_new_matches_to_start ndebug db t = Inr db' \<longrightarrow> db' = db"
    if a: "nr = 0 \<or> \<not> ?rc 0"
  proof (intro allI impI)
    fix db' assume c: "check_for_new_matches_to_start ndebug db t = Inr db'"
    then obtain L w where s: "scan_rounds db ?ms ?nm nr [0 ..< nr] (- 1) False = Inr (L, w)"
      using d r by (auto simp: check_for_new_matches_to_start_def Let_def split: sum.splits)
    from scan[OF s] a have "check_for_new_matches_to_start ndebug db t = Inr db" by blast
    with c show "db' = db" by simp
  qed
  have over: "check_for_new_matches_to_start ndebug db t
            = (if nr = 0 \<or> ndebug then Inr db else Inl Assertion_failed)"
    if a: "\<forall>k<nr. ?rc k"
  proof -
    from a have "\<forall>k. 0 \<le> k \<and> k < nr \<longrightarrow> ?rc k" by simp
    from scan_rounds_all_complete[OF this, of "- 1" False]
    have s: "scan_rounds db ?ms ?nm nr [0 ..< nr] (- 1) False
               = Inr (if 0 < nr then int nr - 1 else - 1, False)" .
    from scan[OF s] show ?thesis by (cases "nr = 0") auto
  qed
  from scan none over show ?thesis by blast
qed


theorem scheduler_returns_without_change_witness:
  "tournament_details_index
       (bracket4_db match_in_progress match_complete waiting_on_previous_matches)
       (tournament_details_id (example_tournament 4 4 40 in_progress)) = Some bracket4_details
   \<and> find_msb (word_of_nat (length (matches bracket4_details)) + 1) = Inr 2
   \<and> scan_rounds (bracket4_db match_in_progress match_complete waiting_on_previous_matches)
        (matches bracket4_details) (word_of_nat (length (matches bracket4_details))) 2
        [0 ..< 2] (- 1) False = Inr (- 1, False)
   \<and> check_for_new_matches_to_start False
        (bracket4_db match_in_progress match_complete waiting_on_previous_matches)
        (example_tournament 4 4 40 in_progress)
       = Inr (bracket4_db match_in_progress match_complete waiting_on_previous_matches)
   \<and> scan_rounds (bracket4_db match_complete match_complete match_complete)
        (matches bracket4_details) (word_of_nat (length (matches bracket4_details))) 2
        [0 ..< 2] (- 1) False = Inr (1, False)
   \<and> check_for_new_matches_to_start True
        (bracket4_db match_complete match_complete match_complete)
        (example_tournament 4 4 40 in_progress)
       = Inr (bracket4_db match_complete match_complete match_complete)
   \<and> check_for_new_matches_to_start False
        (bracket4_db match_complete match_complete match_complete)
        (example_tournament 4 4 40 in_progress)
       = Inl Assertion_failed"
proof -
  let ?t = "example_tournament 4 4 40 in_progress"
  let ?A = "bracket4_db match_in_progress match_complete waiting_on_previous_matches"
  let ?B = "bracket4_db match_complete match_complete match_complete"
  have d: "tournament_details_index (bracket4_db s0 s1 s2) (tournament_details_id ?t)
             = Some bracket4_details" for s0 s1 s2
    by (simp add: bracket4_db_def example_tournament_def)
  have r: "find_msb (word_of_nat (length (matches bracket4_details)) + 1) = Inr 2"
    by (simp add: bracket4_details_def find_msb_def msb_index.simps)
  have sA: "scan_rounds ?A (matches bracket4_details)
        (word_of_nat (length (matches bracket4_details))) 2 [0 ..< 2] (- 1) False
          = Inr (- 1, False)"
    by code_simp
  have sB: "scan_rounds ?B (matches bracket4_details)
        (word_of_nat (length (matches bracket4_details))) 2 [0 ..< 2] (- 1) False
          = Inr (1, False)"
    by code_simp
  from scheduler_returns_without_change[OF d r, of match_in_progress match_complete
      waiting_on_previous_matches False] sA
  have cA: "check_for_new_matches_to_start False ?A ?t = Inr ?A" by blast
  from scheduler_returns_without_change[OF d r, of match_complete match_complete
      match_complete True]
  have "scan_rounds ?B (matches bracket4_details)
          (word_of_nat (length (matches bracket4_details))) 2 [0 ..< 2] (- 1) False
            = Inr (1, False) \<longrightarrow>
        ((1 :: int) \<noteq> - 1 \<and> 1 = int 2 - 1 \<longrightarrow>
           check_for_new_matches_to_start True ?B ?t
             = (if True then Inr ?B else Inl Assertion_failed))"
    by blast
  with sB have cB1: "check_for_new_matches_to_start True ?B ?t = Inr ?B" by simp
  from scheduler_returns_without_change[OF d r, of match_complete match_complete
      match_complete False]
  have "scan_rounds ?B (matches bracket4_details)
          (word_of_nat (length (matches bracket4_details))) 2 [0 ..< 2] (- 1) False
            = Inr (1, False) \<longrightarrow>
        ((1 :: int) \<noteq> - 1 \<and> 1 = int 2 - 1 \<longrightarrow>
           check_for_new_matches_to_start False ?B ?t
             = (if False then Inr ?B else Inl Assertion_failed))"
    by blast
  with sB have cB2: "check_for_new_matches_to_start False ?B ?t = Inl Assertion_failed" by simp
  from d r sA cA sB cB1 cB2 show ?thesis by blast
qed

end
